theory Spec2Isabelle
  imports Main "HOL-Library.Word"
begin

unbundle bit_operations_syntax

section \<open>Conventions of the embedding\<close>

text \<open>
  The gateware is a single-clock synchronous design. Each component is embedded as a
  record of its registers (the signals driven from the \<open>sync\<close> domain), a record of
  its input signals, a step function giving the registers after the next clock edge,
  and functions giving the combinational outputs of the current cycle. Within one
  \<open>elab\<close>, a later assignment to a register overrides an earlier one, and a register
  with no active assignment keeps its value; a combinational signal with no active
  assignment has its reset value 0.

  Arithmetic inside an expression is exact (operand widths grow), so it is done on
  \<open>int\<close>; the assignment to a signal of width \<open>w\<close> truncates, which is
  \<open>word_of_int\<close> into a \<open>w word\<close>. A signed signal is read with \<open>sint\<close>, an unsigned
  one with \<open>unat\<close> or \<open>uint\<close>.
\<close>

text \<open>\<open>tree_sum\<close> of the gateware library adds its operands in a tree of widening
  adders; its value is the exact sum.\<close>

definition tree_sum :: "int list \<Rightarrow> int" where
  "tree_sum vs = sum_list vs"

text \<open>Python's \<open>int.bit_length\<close>, and the width of \<open>Signal(range(n))\<close>: the bit length
  of \<open>n - 1\<close>, but one bit for \<open>range(1)\<close> (the toolchain's \<open>bits_for(0)\<close> is 1), and no
  bit for the empty \<open>range(0)\<close>.\<close>

fun bit_length :: "nat \<Rightarrow> nat" where
  "bit_length n = (if n = 0 then 0 else Suc (bit_length (n div 2)))"

declare bit_length.simps [simp del]

definition range_width :: "nat \<Rightarrow> nat" where
  "range_width n = (if n = 0 then 0 else max 1 (bit_length (n - 1)))"

text \<open>Indexing an \<open>Array\<close> of \<open>len\<close> signals: an index past the end selects the last
  element.\<close>

definition array_index :: "nat \<Rightarrow> nat \<Rightarrow> nat" where
  "array_index len k = min k (len - 1)"

section \<open>delay.py: Delayer\<close>

record delayer_state =
  shift_register :: "6 word"

definition delayer_reset :: delayer_state where
  "delayer_reset = \<lparr>shift_register = 0\<rparr>"

text \<open>Combinational output: the tap selected by \<open>cycles\<close> (a 4-bit signal).\<close>

definition delayer_output :: "4 word \<Rightarrow> delayer_state \<Rightarrow> bool" where
  "delayer_output cycles s =
     (if cycles = 5 then bit (shift_register s) 4
      else if cycles = 4 then bit (shift_register s) 3
      else if cycles = 3 then bit (shift_register s) 2
      else if cycles = 2 then bit (shift_register s) 1
      else bit (shift_register s) 0)"

text \<open>Clock edge: bits 5..1 take bits 4..0, bit 0 takes the input.\<close>

definition delayer_step :: "delayer_state \<Rightarrow> bool \<Rightarrow> delayer_state" where
  "delayer_step s inp =
     \<lparr>shift_register = push_bit 1 (shift_register s) OR of_bool inp\<rparr>"

text \<open>The state at tick \<open>t\<close>, the input signal being \<open>inp\<close> at each earlier tick.\<close>

fun delayer_run :: "delayer_state \<Rightarrow> (nat \<Rightarrow> bool) \<Rightarrow> nat \<Rightarrow> delayer_state" where
  "delayer_run s inp 0 = s"
| "delayer_run s inp (Suc t) = delayer_step (delayer_run s inp t) (inp t)"

section \<open>mul.py: AccOrTrans\<close>

record acc_state =
  add_sum :: "28 word"
  accumulator :: "32 word"
  late_in_values_0 :: "24 word"
  late_in_values_1 :: "24 word"
  late_in_values_2 :: "24 word"
  late_in_values_3 :: "24 word"
  Y_tmp_0 :: "32 word"
  Y_tmp_1 :: "32 word"
  Y_tmp_2 :: "32 word"
  Y_tmp_3 :: "32 word"
  Y_0 :: "32 word"
  Y_1 :: "32 word"
  Y_2 :: "32 word"
  Y_3 :: "32 word"

record acc_in =
  acc_switch_PorD :: bool
  add_en :: bool
  clear :: bool
  in_values :: "nat \<Rightarrow> 24 word"

definition acc_reset :: acc_state where
  "acc_reset = \<lparr>add_sum = 0, accumulator = 0,
     late_in_values_0 = 0, late_in_values_1 = 0, late_in_values_2 = 0, late_in_values_3 = 0,
     Y_tmp_0 = 0, Y_tmp_1 = 0, Y_tmp_2 = 0, Y_tmp_3 = 0,
     Y_0 = 0, Y_1 = 0, Y_2 = 0, Y_3 = 0\<rparr>"

text \<open>The value of product \<open>n\<close> as the signed number the adders see.\<close>

definition iv :: "acc_in \<Rightarrow> nat \<Rightarrow> int" where
  "iv i n = sint (in_values i n)"

text \<open>Pointwise branch (\<open>switch_PorD == 0\<close>).\<close>

definition acc_step_P :: "acc_state \<Rightarrow> acc_in \<Rightarrow> acc_state" where
  "acc_step_P s i =
     s\<lparr>add_sum := word_of_int (tree_sum (map (iv i) [0..<8])),
       accumulator :=
         (if clear i then 0
          else if add_en i then word_of_int (sint (accumulator s) + sint (add_sum s))
          else accumulator s)\<rparr>"

text \<open>Depthwise branch. The operands of the adder tree that feeds \<open>Y_tmp[n]\<close>:\<close>

definition Y_tmp_terms :: "acc_in \<Rightarrow> nat \<Rightarrow> int list" where
  "Y_tmp_terms i n =
     (if n = 0 then [iv i 0, iv i 2, iv i 8, iv i 1, iv i 3, iv i 9, iv i 4, iv i 6]
      else if n = 1 then [iv i 1, iv i 3, iv i 9, - iv i 4, - iv i 6, - iv i 12, - iv i 5, - iv i 7]
      else if n = 2 then [iv i 2, - iv i 8, - iv i 10, iv i 3, - iv i 9, - iv i 11, iv i 6, - iv i 12]
      else [iv i 3, - iv i 9, - iv i 11, - iv i 6, iv i 12, iv i 14, - iv i 7, iv i 13])"

definition acc_step_D :: "acc_state \<Rightarrow> acc_in \<Rightarrow> acc_state" where
  "acc_step_D s i =
     s\<lparr>late_in_values_0 := in_values i 12,
       late_in_values_1 := in_values i 13,
       late_in_values_2 := in_values i 14,
       late_in_values_3 := in_values i 15,
       Y_tmp_0 := word_of_int (tree_sum (Y_tmp_terms i 0)),
       Y_tmp_1 := word_of_int (tree_sum (Y_tmp_terms i 1)),
       Y_tmp_2 := word_of_int (tree_sum (Y_tmp_terms i 2)),
       Y_tmp_3 := word_of_int (tree_sum (Y_tmp_terms i 3)),
       Y_0 := word_of_int (sint (Y_tmp_0 s) + sint (late_in_values_0 s)),
       Y_1 := word_of_int (sint (Y_tmp_1 s) - sint (late_in_values_1 s)),
       Y_2 := word_of_int (sint (Y_tmp_2 s) - sint (late_in_values_2 s)),
       Y_3 := word_of_int (sint (Y_tmp_3 s) + sint (late_in_values_3 s))\<rparr>"

definition acc_step :: "acc_state \<Rightarrow> acc_in \<Rightarrow> acc_state" where
  "acc_step s i = (if \<not> acc_switch_PorD i then acc_step_P s i else acc_step_D s i)"

text \<open>The four combinational outputs \<open>result[n]\<close>; \<open>>> 2\<close> on a signed value is the
  arithmetic shift, that is, division by 4 rounding towards minus infinity.\<close>

definition acc_result :: "acc_state \<Rightarrow> acc_in \<Rightarrow> nat \<Rightarrow> 32 word" where
  "acc_result s i n =
     (if \<not> acc_switch_PorD i then
        (if n = 0 then
           (if add_en i then word_of_int (sint (accumulator s) + sint (add_sum s))
            else accumulator s)
         else 0)
      else
        (if n = 0 then word_of_int (sint (Y_0 s) div 2 ^ 2)
         else if n = 1 then word_of_int (sint (Y_1 s) div 2 ^ 2)
         else if n = 2 then word_of_int (sint (Y_2 s) div 2 ^ 2)
         else if n = 3 then word_of_int (sint (Y_3 s) div 2 ^ 2)
         else 0))"

section \<open>sequencing.py: UpCounter, GateCalculator, Sequencer\<close>

text \<open>
  Signals whose width comes from a constructor parameter or from \<open>config.py\<close> (which is
  not among the modules embedded here) are natural numbers, with the truncation of an
  assignment to \<open>w\<close> bits written \<open>mod 2 ^ w\<close>. A difference such as \<open>max - 1\<close> is
  formed on \<open>int\<close>, so that it is \<open>-1\<close> for \<open>max = 0\<close> and then equal to no value of the
  unsigned counter.

  UpCounter: \<open>count\<close> has the width \<open>w\<close> of \<open>max\<close>. \<open>done\<close> is combinational, the
  restart assignment comes last and overrides the count.
\<close>

definition upcounter_done :: "nat \<Rightarrow> nat \<Rightarrow> bool \<Rightarrow> bool" where
  "upcounter_done count max_count en = (en \<and> int count = int max_count - 1)"

definition upcounter_step :: "nat \<Rightarrow> nat \<Rightarrow> nat \<Rightarrow> bool \<Rightarrow> bool \<Rightarrow> nat" where
  "upcounter_step w count max_count en restart =
     (if restart then 0
      else if en then (if int count = int max_count - 1 then 0 else (count + 1) mod 2 ^ w)
      else count)"

text \<open>
  The Sequencer. \<open>fw\<close> and \<open>iw\<close> are the widths of \<open>filter_value_words\<close> and
  \<open>input_depth_words\<close> (from \<open>config.FILTER_DATA_TOTAL_WORDS\<close> and
  \<open>config.MAX_PER_PIXEL_INPUT_WORDS\<close>), \<open>pp_cycles\<close> is
  \<open>PostProcessor.PIPELINE_CYCLES\<close> as assigned to the 4-bit \<open>cycles\<close> of a Delayer.
\<close>

record seq_config =
  fw :: nat
  iw :: nat
  pp_cycles :: "4 word"

record seq_state =
  running :: bool
  fnext_count :: nat
  f_count :: nat
  i_count :: nat
  four_count :: nat
  mul_delay :: delayer_state
  pp_delay :: delayer_state
  depth2_delay :: delayer_state

record seq_in =
  start_run :: bool
  in_store_ready :: bool
  fifo_has_space :: bool
  filter_value_words :: nat
  input_depth_words :: nat
  seq_restart :: bool
  seq_switch_PorD :: bool
  num_tile :: nat

definition seq_reset :: seq_state where
  "seq_reset = \<lparr>running = False, fnext_count = 0, f_count = 0, i_count = 0, four_count = 0,
     mul_delay = delayer_reset, pp_delay = delayer_reset, depth2_delay = delayer_reset\<rparr>"

text \<open>GateCalculator, whose \<open>running\<close> latch is the field of that name.\<close>

definition seq_gate :: "seq_state \<Rightarrow> seq_in \<Rightarrow> bool" where
  "seq_gate s i = ((running s \<or> start_run i) \<and> in_store_ready i \<and> fifo_has_space i)"

definition f_count_max :: "seq_config \<Rightarrow> seq_in \<Rightarrow> nat" where
  "f_count_max c i =
     (if \<not> seq_switch_PorD i then filter_value_words i div 2 else num_tile i mod 2 ^ fw c)"

definition i_count_max :: "seq_config \<Rightarrow> seq_in \<Rightarrow> nat" where
  "i_count_max c i =
     (if \<not> seq_switch_PorD i then input_depth_words i div 2 else num_tile i mod 2 ^ iw c)"

definition all_output_finished :: "seq_config \<Rightarrow> seq_state \<Rightarrow> seq_in \<Rightarrow> bool" where
  "all_output_finished c s i = upcounter_done (f_count s) (f_count_max c i) (seq_gate s i)"

definition mul_done :: "seq_state \<Rightarrow> seq_in \<Rightarrow> bool" where
  "mul_done s i = delayer_output (if \<not> seq_switch_PorD i then 3 else 5) (mul_delay s)"

definition acc_done :: "seq_config \<Rightarrow> seq_state \<Rightarrow> seq_in \<Rightarrow> bool" where
  "acc_done c s i = upcounter_done (i_count s) (i_count_max c i) (mul_done s i)"

definition pp_done :: "seq_config \<Rightarrow> seq_state \<Rightarrow> bool" where
  "pp_done c s = delayer_output (pp_cycles c) (pp_delay s)"

definition filter_next :: "seq_state \<Rightarrow> seq_in \<Rightarrow> bool" where
  "filter_next s i =
     (if \<not> seq_switch_PorD i then seq_gate s i
      else upcounter_done (fnext_count s) (num_tile i) (seq_gate s i))"

definition out_word_done :: "seq_config \<Rightarrow> seq_state \<Rightarrow> seq_in \<Rightarrow> bool" where
  "out_word_done c s i =
     (if \<not> seq_switch_PorD i then upcounter_done (four_count s) 4 (pp_done c s)
      else delayer_output (pp_cycles c) (depth2_delay s))"

definition seq_step :: "seq_config \<Rightarrow> seq_state \<Rightarrow> seq_in \<Rightarrow> seq_state" where
  "seq_step c s i =
     \<lparr>running =
        (if all_output_finished c s i then False
         else if start_run i then True else running s),
      fnext_count =
        upcounter_step 16 (fnext_count s) (num_tile i) (seq_gate s i) (seq_restart i),
      f_count =
        upcounter_step (fw c) (f_count s) (f_count_max c i) (seq_gate s i) (seq_restart i),
      i_count =
        upcounter_step (iw c) (i_count s) (i_count_max c i) (mul_done s i) (seq_restart i),
      four_count = upcounter_step 3 (four_count s) 4 (pp_done c s) (seq_restart i),
      mul_delay = delayer_step (mul_delay s) (seq_gate s i),
      pp_delay = delayer_step (pp_delay s) (acc_done c s i),
      depth2_delay = delayer_step (depth2_delay s) (mul_done s i)\<rparr>"

fun seq_run :: "seq_config \<Rightarrow> seq_state \<Rightarrow> seq_in list \<Rightarrow> seq_state" where
  "seq_run c s [] = s"
| "seq_run c s (i # is) = seq_run c (seq_step c s i) is"

text \<open>A configuration and two stimuli: a cycle that opens the gate in pointwise mode,
  and a cycle in which the FIFO reports no space.\<close>

definition seq_cfg8 :: seq_config where
  "seq_cfg8 = \<lparr>fw = 8, iw = 8, pp_cycles = 2\<rparr>"

definition seq_go :: seq_in where
  "seq_go = \<lparr>start_run = True, in_store_ready = True, fifo_has_space = True,
     filter_value_words = 8, input_depth_words = 4, seq_restart = False,
     seq_switch_PorD = False, num_tile = 2\<rparr>"

definition seq_stall :: seq_in where
  "seq_stall = \<lparr>start_run = False, in_store_ready = True, fifo_has_space = False,
     filter_value_words = 8, input_depth_words = 4, seq_restart = False,
     seq_switch_PorD = False, num_tile = 2\<rparr>"

section \<open>store.py: CircularIncrementer\<close>

text \<open>\<open>limit\<close>, \<open>r_addr\<close> and \<open>last_addr\<close> are \<open>Signal(range(depth))\<close>, that is,
  \<open>range_width depth\<close> bits wide. The field \<open>ci_limit\<close> is the value driven onto
  \<open>limit\<close>; the signal holds it truncated to its width.\<close>

record ci_state =
  last_addr :: nat

record ci_in =
  ci_restart :: bool
  ci_next :: bool
  ci_limit :: nat

definition ci_reset :: ci_state where
  "ci_reset = \<lparr>last_addr = 0\<rparr>"

definition ci_limit_sig :: "nat \<Rightarrow> ci_in \<Rightarrow> nat" where
  "ci_limit_sig depth i = ci_limit i mod 2 ^ range_width depth"

text \<open>The operand \<open>limit - 1\<close> of the comparison, for a \<open>limit\<close> of \<open>w\<close> bits holding \<open>l\<close>.
  For \<open>l \<ge> 1\<close> it is \<open>l - 1\<close>. For \<open>l = 0\<close> its value depends on the shape the toolchain
  gives the difference of two unsigned operands, which differs between releases: a
  signed shape, and the value \<open>-1\<close>, or an unsigned shape one bit wider than the
  operands, and the value \<open>2 ^ (w + 1) - 1\<close>. The flag \<open>signed_diff\<close> selects the
  first.\<close>

definition limit_minus_1 :: "bool \<Rightarrow> nat \<Rightarrow> nat \<Rightarrow> int" where
  "limit_minus_1 signed_diff w l =
     (if signed_diff then int l - 1 else (int l - 1) mod 2 ^ (max w 1 + 1))"

text \<open>The address presented this cycle.\<close>

definition ci_r_addr :: "bool \<Rightarrow> nat \<Rightarrow> ci_state \<Rightarrow> ci_in \<Rightarrow> nat" where
  "ci_r_addr signed_diff depth s i =
     (if ci_restart i then 0
      else if ci_next i then
        (if int (last_addr s) \<ge>
              limit_minus_1 signed_diff (range_width depth) (ci_limit_sig depth i) then 0
         else (last_addr s + 1) mod 2 ^ range_width depth)
      else last_addr s)"

definition ci_step :: "bool \<Rightarrow> nat \<Rightarrow> ci_state \<Rightarrow> ci_in \<Rightarrow> ci_state" where
  "ci_step signed_diff depth s i = \<lparr>last_addr = ci_r_addr signed_diff depth s i\<rparr>"

fun ci_run :: "bool \<Rightarrow> nat \<Rightarrow> ci_state \<Rightarrow> ci_in list \<Rightarrow> ci_state" where
  "ci_run signed_diff depth s [] = s"
| "ci_run signed_diff depth s (i # is) =
     ci_run signed_diff depth (ci_step signed_diff depth s i) is"

definition ci_go :: "nat \<Rightarrow> ci_in" where
  "ci_go l = \<lparr>ci_restart = False, ci_next = True, ci_limit = l\<rparr>"

definition ci_again :: "nat \<Rightarrow> ci_in" where
  "ci_again l = \<lparr>ci_restart = True, ci_next = True, ci_limit = l\<rparr>"

definition ci_hold :: "nat \<Rightarrow> ci_in" where
  "ci_hold l = \<lparr>ci_restart = False, ci_next = False, ci_limit = l\<rparr>"

section \<open>store.py: StoreSetter\<close>

text \<open>The constructor's parameters (the word width \<open>bits_width\<close> is 32 wherever a
  StoreSetter is built) and what it derives from them.\<close>

record ss_config =
  num_memories :: nat
  ss_depth :: nat

definition num_memories_bits :: "ss_config \<Rightarrow> nat" where
  "num_memories_bits c = bit_length (num_memories c - 1)"

definition w_addr_width :: "ss_config \<Rightarrow> nat" where
  "w_addr_width c = range_width (ss_depth c)"

definition count_width :: "ss_config \<Rightarrow> nat" where
  "count_width c = range_width (ss_depth c * num_memories c + 1)"

record ss_state =
  ss_count :: nat

record ss_in =
  ss_restart :: bool
  ss_start :: bool
  ss_in0 :: "32 word"

definition ss_reset :: ss_state where
  "ss_reset = \<lparr>ss_count = 0\<rparr>"

definition ss_w_addr :: "ss_config \<Rightarrow> ss_state \<Rightarrow> nat" where
  "ss_w_addr c s = (ss_count s div 2 ^ num_memories_bits c) mod 2 ^ w_addr_width c"

definition ss_w_en :: "ss_config \<Rightarrow> ss_state \<Rightarrow> ss_in \<Rightarrow> nat \<Rightarrow> bool" where
  "ss_w_en c s i k =
     (\<not> ss_restart i \<and> ss_start i \<and> k < num_memories c \<and>
      k = array_index (num_memories c) (ss_count s mod 2 ^ num_memories_bits c))"

definition ss_w_data :: "ss_in \<Rightarrow> 32 word" where
  "ss_w_data i = (if \<not> ss_restart i \<and> ss_start i then ss_in0 i else 0)"

definition ss_updated :: "ss_config \<Rightarrow> ss_state \<Rightarrow> ss_in \<Rightarrow> bool" where
  "ss_updated c s i = (list_ex (ss_w_en c s i) [0..<num_memories c] \<or> ss_restart i)"

definition ss_step :: "ss_config \<Rightarrow> ss_state \<Rightarrow> ss_in \<Rightarrow> ss_state" where
  "ss_step c s i =
     \<lparr>ss_count =
        (if ss_restart i then 0
         else if ss_start i then (ss_count s + 1) mod 2 ^ count_width c
         else ss_count s)\<rparr>"

text \<open>The memories behind \<open>connect_write_port\<close>: bank \<open>k\<close> stores \<open>w_data\<close> at \<open>w_addr\<close>
  at the clock edge when its \<open>w_en\<close> is high.\<close>

type_synonym banks = "nat \<Rightarrow> nat \<Rightarrow> 32 word"

definition ss_mem_step :: "ss_config \<Rightarrow> banks \<Rightarrow> ss_state \<Rightarrow> ss_in \<Rightarrow> banks" where
  "ss_mem_step c m s i =
     (\<lambda>k a. if ss_w_en c s i k \<and> a = ss_w_addr c s then ss_w_data i else m k a)"

definition ss_cfg4 :: ss_config where
  "ss_cfg4 = \<lparr>num_memories = 4, ss_depth = 8\<rparr>"

definition ss_write :: ss_in where
  "ss_write = \<lparr>ss_restart = False, ss_start = True, ss_in0 = 7\<rparr>"

definition ss_restart_write :: ss_in where
  "ss_restart_write = \<lparr>ss_restart = True, ss_start = True, ss_in0 = 7\<rparr>"

definition ss_at6 :: ss_state where
  "ss_at6 = \<lparr>ss_count = 6\<rparr>"

definition zero_banks :: banks where
  "zero_banks k a = 0"

section \<open>store.py: FilterValueFetcher\<close>

text \<open>
  The address sequencing of the fetcher: the register \<open>r_addr\<close> (as wide as \<open>limit\<close>,
  which is \<open>Signal(range(max_depth * 4))\<close>), the register \<open>was_updated\<close>, and the
  \<open>next\<close>, \<open>limit\<close> and \<open>restart\<close> inputs it drives on its four sequential memory
  readers. The data registers of \<open>elab\<close> are fed from the readers' outputs and do not
  feed back into any of these.
\<close>

record fvf_state =
  fvf_r_addr :: nat
  was_updated :: bool

record fvf_in =
  fvf_limit :: nat
  fvf_next :: bool
  fvf_updated :: bool
  fvf_restart :: bool
  fvf_switch_PorD :: bool

definition fvf_reset :: fvf_state where
  "fvf_reset = \<lparr>fvf_r_addr = 0, was_updated = False\<rparr>"

definition fvf_width :: "nat \<Rightarrow> nat" where
  "fvf_width max_depth = range_width (max_depth * 4)"

text \<open>\<open>smr_nexts[n]\<close>. In the pointwise branch the second index is \<open>r_addr[:2] + 1\<close>, a
  3-bit value; in the depthwise branch the indices are the low two bits of \<open>r_addr + 1\<close>
  and \<open>r_addr + 2\<close>.\<close>

definition smr_next :: "fvf_state \<Rightarrow> fvf_in \<Rightarrow> nat \<Rightarrow> bool" where
  "smr_next s i n =
     (\<not> fvf_restart i \<and> fvf_next i \<and> n < 4 \<and>
      (if \<not> fvf_switch_PorD i then
         n = array_index 4 (fvf_r_addr s mod 4) \<or>
         n = array_index 4 (fvf_r_addr s mod 4 + 1)
       else
         n = array_index 4 (fvf_r_addr s mod 4) \<or>
         n = array_index 4 ((fvf_r_addr s + 1) mod 4) \<or>
         n = array_index 4 ((fvf_r_addr s + 2) mod 4)))"

definition smr_limit :: "fvf_in \<Rightarrow> nat \<Rightarrow> nat" where
  "smr_limit i n = (fvf_limit i + 3 - n) div 4"

definition smr_restart :: "fvf_state \<Rightarrow> bool" where
  "smr_restart s = was_updated s"

definition fvf_step :: "nat \<Rightarrow> fvf_state \<Rightarrow> fvf_in \<Rightarrow> fvf_state" where
  "fvf_step max_depth s i =
     \<lparr>fvf_r_addr =
        (if fvf_restart i then 0
         else if fvf_next i then
           (if \<not> fvf_switch_PorD i then
              (if int (fvf_r_addr s) = int (fvf_limit i) - 2 then 0
               else (fvf_r_addr s + 2) mod 2 ^ fvf_width max_depth)
            else
              (if int (fvf_r_addr s) = int (fvf_limit i) - 3 then 0
               else (fvf_r_addr s + 3) mod 2 ^ fvf_width max_depth))
         else fvf_r_addr s),
      was_updated = fvf_updated i\<rparr>"

definition fvf_at :: "nat \<Rightarrow> fvf_state" where
  "fvf_at r = \<lparr>fvf_r_addr = r, was_updated = False\<rparr>"

definition fvf_next_in :: "bool \<Rightarrow> nat \<Rightarrow> fvf_in" where
  "fvf_next_in d l = \<lparr>fvf_limit = l, fvf_next = True, fvf_updated = False,
     fvf_restart = False, fvf_switch_PorD = d\<rparr>"

definition fvf_restart_in :: fvf_in where
  "fvf_restart_in = \<lparr>fvf_limit = 8, fvf_next = True, fvf_updated = False,
     fvf_restart = True, fvf_switch_PorD = False\<rparr>"

fun fvf_run :: "nat \<Rightarrow> fvf_state \<Rightarrow> fvf_in list \<Rightarrow> fvf_state" where
  "fvf_run max_depth s [] = s"
| "fvf_run max_depth s (i # is) = fvf_run max_depth (fvf_step max_depth s i) is"

section \<open>store.py: InputStore\<close>

text \<open>
  The registers of \<open>InputStore\<close>, the contents of its four memories as the write port
  leaves them, and its inputs. A memory address is \<open>Cat(addr, buf)\<close>, modelled as the
  pair of the buffer bit and the address within the buffer. The four
  \<open>SequentialMemoryReader\<close>s and the read ports of the memories belong to the gateware
  library: what they deliver in a cycle (\<open>smr.data\<close> and the memories' \<open>r_data\<close>) is an
  input of the model. Every read address has \<open>r_curr_buf\<close> as its buffer bit.
\<close>

record ins_state =
  r_full_0 :: bool
  r_full_1 :: bool
  w_curr_buf :: bool
  ins_w_addr :: nat
  r_curr_buf :: bool
  ins_r_addr :: nat
  last_full :: bool
  r_ready :: bool
  input_width_count :: nat
  smr_no_d :: nat
  r_data_tmp :: "nat \<Rightarrow> 12 word"
  r_data :: "nat \<Rightarrow> 12 word"
  ins_mem :: "nat \<Rightarrow> bool \<Rightarrow> nat \<Rightarrow> 32 word"

record ins_in =
  ins_restart :: bool
  input_depth :: nat
  ins_w_data :: "32 word"
  ins_w_en :: bool
  r_next :: bool
  r_finished :: bool
  ins_switch_PorD :: bool
  ins_offset :: "12 word"
  input_width :: nat
  pad :: nat
  smr_datas :: "nat \<Rightarrow> 32 word"
  smr_mem_datas :: "nat \<Rightarrow> 32 word"

definition ins_reset :: ins_state where
  "ins_reset = \<lparr>r_full_0 = False, r_full_1 = False, w_curr_buf = False, ins_w_addr = 0,
     r_curr_buf = False, ins_r_addr = 0, last_full = False, r_ready = False,
     input_width_count = 0, smr_no_d = 0, r_data_tmp = (\<lambda>n. 0), r_data = (\<lambda>n. 0),
     ins_mem = (\<lambda>n b a. 0)\<rparr>"

text \<open>Width of \<open>input_depth\<close>, \<open>w_addr\<close> and \<open>r_addr\<close>.\<close>

definition ins_width :: "nat \<Rightarrow> nat" where
  "ins_width max_depth = range_width (max_depth * 4 div 2)"

definition r_full :: "ins_state \<Rightarrow> bool \<Rightarrow> bool" where
  "r_full s b = (if b then r_full_1 s else r_full_0 s)"

subsection \<open>Write side\<close>

definition w_ready :: "ins_state \<Rightarrow> bool" where
  "w_ready s = (\<not> r_full s (w_curr_buf s))"

definition w_accept :: "ins_state \<Rightarrow> ins_in \<Rightarrow> bool" where
  "w_accept s i = (ins_w_en i \<and> w_ready s)"

text \<open>The accepted write that is at address \<open>input_depth - 1\<close>.\<close>

definition w_last :: "ins_state \<Rightarrow> ins_in \<Rightarrow> bool" where
  "w_last s i = (w_accept s i \<and> int (ins_w_addr s) = int (input_depth i) - 1)"

definition ins_mem_next ::
  "ins_state \<Rightarrow> ins_in \<Rightarrow> nat \<Rightarrow> bool \<Rightarrow> nat \<Rightarrow> 32 word" where
  "ins_mem_next s i n b a =
     (if w_accept s i \<and> n = ins_w_addr s mod 4 \<and> b = w_curr_buf s \<and> a = ins_w_addr s div 4
      then ins_w_data i else ins_mem s n b a)"

subsection \<open>Read side: control\<close>

definition full :: "ins_state \<Rightarrow> bool" where
  "full s = r_full s (r_curr_buf s)"

definition rising_full :: "ins_state \<Rightarrow> bool" where
  "rising_full s = (full s \<and> \<not> last_full s)"

definition r_advance :: "ins_state \<Rightarrow> ins_in \<Rightarrow> bool" where
  "r_advance s i = (r_next i \<and> r_ready s)"

definition iwc_en :: "ins_state \<Rightarrow> ins_in \<Rightarrow> bool" where
  "iwc_en s i = (if rising_full s \<and> ins_switch_PorD i then True else r_advance s i)"

definition iwc_max :: "ins_in \<Rightarrow> nat" where
  "iwc_max i = nat ((int (input_width i) - 1) mod 2 ^ 8)"

definition iwc_done :: "ins_state \<Rightarrow> ins_in \<Rightarrow> bool" where
  "iwc_done s i = upcounter_done (input_width_count s) (iwc_max i) (iwc_en s i)"

definition r_full_next :: "ins_state \<Rightarrow> ins_in \<Rightarrow> bool \<Rightarrow> bool" where
  "r_full_next s i b =
     (if r_finished i \<and> r_curr_buf s = b then False
      else if w_last s i \<and> w_curr_buf s = b then True
      else if ins_restart i then False
      else r_full s b)"

definition ins_r_addr_next :: "nat \<Rightarrow> ins_state \<Rightarrow> ins_in \<Rightarrow> nat" where
  "ins_r_addr_next max_depth s i =
     (if ins_restart i \<or> r_finished i then 0
      else if r_advance s i then
        (if \<not> ins_switch_PorD i then
           (if int (ins_r_addr s) = int (input_depth i) - 2 then 0
            else (ins_r_addr s + 2) mod 2 ^ ins_width max_depth)
         else
           (if \<not> iwc_done s i then (ins_r_addr s + 1) mod 2 ^ ins_width max_depth
            else (ins_r_addr s + pad i + 2) mod 2 ^ ins_width max_depth))
      else if rising_full s \<and> ins_switch_PorD i then 1 mod 2 ^ ins_width max_depth
      else ins_r_addr s)"

text \<open>What the read side drives on the library's readers and on the read ports.\<close>

definition ins_smr_restart :: "ins_state \<Rightarrow> ins_in \<Rightarrow> bool" where
  "ins_smr_restart s i = (rising_full s \<and> \<not> ins_switch_PorD i)"

definition ins_smr_next :: "ins_state \<Rightarrow> ins_in \<Rightarrow> nat \<Rightarrow> bool" where
  "ins_smr_next s i n =
     (r_advance s i \<and> \<not> ins_switch_PorD i \<and> n < 4 \<and>
      (n = array_index 4 (ins_r_addr s mod 4) \<or> n = array_index 4 (ins_r_addr s mod 4 + 1)))"

definition ins_smr_limit :: "ins_in \<Rightarrow> nat \<Rightarrow> nat" where
  "ins_smr_limit i n = (input_depth i + 3 - n) div 4"

text \<open>\<open>mem_addrs[n]\<close>, the depthwise read address within the buffer (a later assignment
  to the same element overrides an earlier one), of the width of
  \<open>Signal(range(max_depth // 2))\<close>.\<close>

definition mem_addrs :: "nat \<Rightarrow> ins_state \<Rightarrow> ins_in \<Rightarrow> nat \<Rightarrow> nat" where
  "mem_addrs max_depth s i n =
     (let r = ins_r_addr s; d = r + input_width i + pad i; m = 2 ^ range_width (max_depth div 2)
      in if r_advance s i then
           (if \<not> ins_switch_PorD i then 0
            else if n = (d + 1) mod 4 then ((d + 1) div 4) mod m
            else if n = d mod 4 then (d div 4) mod m
            else if n = (r + 1) mod 4 then ((r + 1) div 4) mod m
            else if n = r mod 4 then (r div 4) mod m
            else 0)
         else
           (if n = 2 then ((input_width i + pad i) div 4) mod m
            else if n = 3 then ((input_width i + pad i + 1) div 4) mod m
            else 0))"

definition ins_read_buf :: "ins_state \<Rightarrow> bool" where
  "ins_read_buf s = r_curr_buf s"

subsection \<open>Read side: data\<close>

text \<open>Word \<open>j\<close> of the 128-bit \<open>tmp\<close>, and its byte \<open>k\<close> read as a signed number.\<close>

definition tmp_word :: "ins_state \<Rightarrow> ins_in \<Rightarrow> nat \<Rightarrow> 32 word" where
  "tmp_word s i j =
     (if \<not> ins_switch_PorD i then
        (if ins_r_addr s mod 4 = 0 then (if j < 2 then smr_datas i j else 0)
         else if ins_r_addr s mod 4 = 2 then (if j < 2 then smr_datas i (j + 2) else 0)
         else 0)
      else smr_mem_datas i ((smr_no_d s + j) mod 4))"

definition tmp_byte :: "ins_state \<Rightarrow> ins_in \<Rightarrow> nat \<Rightarrow> int" where
  "tmp_byte s i k = sint (ucast (drop_bit (8 * (k mod 4)) (tmp_word s i (k div 4))) :: 8 word)"

text \<open>The operands of the adder tree of \<open>r_data_tmp[n]\<close>, over the bytes \<open>b\<close> of \<open>tmp\<close>.\<close>

definition r_data_tmp_terms :: "(nat \<Rightarrow> int) \<Rightarrow> nat \<Rightarrow> int list" where
  "r_data_tmp_terms b n =
     (if n = 0 then [b 0, - b 8 - b 4, b 12]
      else if n = 1 then [b 1, - b 9, b 4, - b 12]
      else if n = 2 then [b 2, b 8 - b 6, - b 12]
      else if n = 3 then [b 3, b 9, b 6, b 12]
      else if n = 4 then [- b 1, b 9, b 4, - b 12]
      else if n = 5 then [b 1, - b 9, - b 5, b 13]
      else if n = 6 then [- b 3, - b 9, b 6, b 12]
      else if n = 7 then [b 3, b 9, - b 7, - b 13]
      else if n = 8 then [- b 2, b 8, b 6, - b 12]
      else if n = 9 then [- b 3, b 9, - b 6, b 12]
      else if n = 10 then [b 2, - b 10, - b 6, b 14]
      else if n = 11 then [b 3, - b 11, b 6, - b 14]
      else if n = 12 then [b 3, - b 9, - b 6, b 12]
      else if n = 13 then [- b 3, b 9, b 7, - b 13]
      else if n = 14 then [- b 3, b 11, b 6, - b 14]
      else [b 3, - b 11, - b 7, b 15])"

definition r_data_tmp_next :: "ins_state \<Rightarrow> ins_in \<Rightarrow> nat \<Rightarrow> 12 word" where
  "r_data_tmp_next s i n =
     (if ins_switch_PorD i \<and> n < 16
      then word_of_int (tree_sum (r_data_tmp_terms (tmp_byte s i) n))
      else r_data_tmp s n)"

text \<open>Lane \<open>n\<close> of \<open>r_data\<close>: pointwise, lanes 0 to 7 take a byte plus the offset;
  depthwise, lane \<open>n\<close> takes \<open>r_data_tmp[n]\<close>, and lane 3 takes it plus \<open>offset << 2\<close>.\<close>

definition r_data_next :: "ins_state \<Rightarrow> ins_in \<Rightarrow> nat \<Rightarrow> 12 word" where
  "r_data_next s i n =
     (if \<not> ins_switch_PorD i then
        (if n < 8 then word_of_int (tmp_byte s i n + sint (ins_offset i)) else r_data s n)
      else
        (if n < 16 then
           (if n = 3 then word_of_int (tree_sum [sint (r_data_tmp s 3), sint (ins_offset i) * 2 ^ 2])
            else r_data_tmp s n)
         else r_data s n))"

subsection \<open>The clock edge\<close>

definition ins_step :: "nat \<Rightarrow> ins_state \<Rightarrow> ins_in \<Rightarrow> ins_state" where
  "ins_step max_depth s i =
     \<lparr>r_full_0 = r_full_next s i False,
      r_full_1 = r_full_next s i True,
      w_curr_buf =
        (if ins_restart i then False
         else if w_last s i then \<not> w_curr_buf s else w_curr_buf s),
      ins_w_addr =
        (if ins_restart i then 0
         else if w_accept s i then
           (if w_last s i then 0 else (ins_w_addr s + 1) mod 2 ^ ins_width max_depth)
         else ins_w_addr s),
      r_curr_buf =
        (if ins_restart i then False
         else if r_finished i then \<not> r_curr_buf s else r_curr_buf s),
      ins_r_addr = ins_r_addr_next max_depth s i,
      last_full = (if ins_restart i \<or> r_finished i then False else full s),
      r_ready =
        (if ins_restart i \<or> r_finished i then False
         else if rising_full s then True else r_ready s),
      input_width_count =
        upcounter_step 8 (input_width_count s) (iwc_max i) (iwc_en s i)
          (ins_restart i \<or> r_finished i),
      smr_no_d = (if r_advance s i then ins_r_addr s mod 4 else 0),
      r_data_tmp = r_data_tmp_next s i,
      r_data = r_data_next s i,
      ins_mem = ins_mem_next s i\<rparr>"

fun ins_run :: "nat \<Rightarrow> ins_state \<Rightarrow> ins_in list \<Rightarrow> ins_state" where
  "ins_run max_depth s [] = s"
| "ins_run max_depth s (i # is) = ins_run max_depth (ins_step max_depth s i) is"

text \<open>The two predicates of the double-buffering invariant: the writer is offered buffer
  \<open>b\<close> (its selector is \<open>b\<close> and \<open>w_ready\<close> is high), and the reader is offered buffer
  \<open>b\<close> (its selector is \<open>b\<close> and \<open>r_ready\<close> is high).\<close>

definition writable :: "ins_state \<Rightarrow> bool \<Rightarrow> bool" where
  "writable s b = (w_curr_buf s = b \<and> w_ready s)"

definition readable :: "ins_state \<Rightarrow> bool \<Rightarrow> bool" where
  "readable s b = (r_curr_buf s = b \<and> r_ready s)"

text \<open>The same input with another offset.\<close>

definition with_offset :: "12 word \<Rightarrow> ins_in \<Rightarrow> ins_in" where
  "with_offset v i = i\<lparr>ins_offset := v\<rparr>"

text \<open>Stimuli: a cycle that writes one word of a one-word pixel, an idle cycle, a cycle
  that finishes the read buffer, and a depthwise read cycle.\<close>

definition ins_cfg_word :: ins_in where
  "ins_cfg_word = \<lparr>ins_restart = False, input_depth = 1, ins_w_data = 5, ins_w_en = True,
     r_next = False, r_finished = False, ins_switch_PorD = True, ins_offset = 0,
     input_width = 4, pad = 2, smr_datas = (\<lambda>n. 0), smr_mem_datas = (\<lambda>n. 0)\<rparr>"

text \<open>A cycle that writes the word \<open>x\<close> of a pixel of \<open>d\<close> words, and a cycle that writes
  the only word of a one-word pixel while \<open>r_finished\<close> is asserted.\<close>

definition ins_write_word :: "nat \<Rightarrow> 32 word \<Rightarrow> ins_in" where
  "ins_write_word d x = \<lparr>ins_restart = False, input_depth = d, ins_w_data = x, ins_w_en = True,
     r_next = False, r_finished = False, ins_switch_PorD = True, ins_offset = 0,
     input_width = 4, pad = 2, smr_datas = (\<lambda>n. 0), smr_mem_datas = (\<lambda>n. 0)\<rparr>"

definition ins_write_finish :: ins_in where
  "ins_write_finish = \<lparr>ins_restart = False, input_depth = 1, ins_w_data = 5, ins_w_en = True,
     r_next = False, r_finished = True, ins_switch_PorD = True, ins_offset = 0,
     input_width = 4, pad = 2, smr_datas = (\<lambda>n. 0), smr_mem_datas = (\<lambda>n. 0)\<rparr>"

definition ins_idle :: ins_in where
  "ins_idle = \<lparr>ins_restart = False, input_depth = 1, ins_w_data = 0, ins_w_en = False,
     r_next = False, r_finished = False, ins_switch_PorD = True, ins_offset = 0,
     input_width = 4, pad = 2, smr_datas = (\<lambda>n. 0), smr_mem_datas = (\<lambda>n. 0)\<rparr>"

definition ins_finish :: ins_in where
  "ins_finish = \<lparr>ins_restart = False, input_depth = 1, ins_w_data = 0, ins_w_en = False,
     r_next = True, r_finished = True, ins_switch_PorD = True, ins_offset = 0,
     input_width = 4, pad = 2, smr_datas = (\<lambda>n. 0), smr_mem_datas = (\<lambda>n. 0)\<rparr>"

definition ins_dw_read :: ins_in where
  "ins_dw_read = \<lparr>ins_restart = False, input_depth = 1, ins_w_data = 0, ins_w_en = False,
     r_next = True, r_finished = False, ins_switch_PorD = True, ins_offset = 0,
     input_width = 4, pad = 2, smr_datas = (\<lambda>n. 0), smr_mem_datas = (\<lambda>n. 1)\<rparr>"

text \<open>Concrete stimuli used below: all sixteen products equal to 1, without and with
  the add-enable pulse, and the products 0, 1, ..., 15 in depthwise mode.\<close>

definition all_ones :: "nat \<Rightarrow> 24 word" where
  "all_ones n = 1"

definition ones_in :: acc_in where
  "ones_in = \<lparr>acc_switch_PorD = False, add_en = False, clear = False, in_values = all_ones\<rparr>"

definition ones_add_in :: acc_in where
  "ones_add_in = \<lparr>acc_switch_PorD = False, add_en = True, clear = False, in_values = all_ones\<rparr>"

definition ones_clear_add_in :: acc_in where
  "ones_clear_add_in = \<lparr>acc_switch_PorD = False, add_en = True, clear = True, in_values = all_ones\<rparr>"

definition ramp :: "nat \<Rightarrow> 24 word" where
  "ramp n = of_nat n"

definition ramp_dw_in :: acc_in where
  "ramp_dw_in = \<lparr>acc_switch_PorD = True, add_en = False, clear = False, in_values = ramp\<rparr>"

definition pulse_at_4 :: "nat \<Rightarrow> bool" where
  "pulse_at_4 t = (t = 4)"

section \<open>Properties of the Delayer\<close>

lemma delayer_step_bit:
  "bit (shift_register (delayer_step s b)) k =
     (if k = 0 then b else k < 6 \<and> bit (shift_register s) (k - 1))"
proof (cases k)
  case 0
  then show ?thesis unfolding delayer_step_def
    by (simp only: bit_or_iff bit_push_bit_iff bit_of_bool_iff delayer_state.simps) simp
next
  case (Suc j)
  then show ?thesis unfolding delayer_step_def
    by (simp only: bit_or_iff bit_push_bit_iff bit_of_bool_iff delayer_state.simps possible_bit_word)
       (auto dest: bit_imp_le_length)
qed

lemma delayer_run_bit:
  "k < 6 \<Longrightarrow> k < t \<Longrightarrow> bit (shift_register (delayer_run s inp t)) k = inp (t - 1 - k)"
proof (induction t arbitrary: k)
  case 0
  then show ?case by simp
next
  case (Suc t)
  show ?case
  proof (cases k)
    case 0
    then show ?thesis by (simp add: delayer_step_bit)
  next
    case (Suc j)
    with Suc.prems have "j < 6" "j < t" by simp_all
    from Suc.IH [OF this] Suc.prems Suc show ?thesis
      by (simp add: delayer_step_bit)
  qed
qed

lemma delayer_tap:
  "k < 6 \<Longrightarrow> k + 1 \<le> t \<Longrightarrow>
     bit (shift_register (delayer_run s inp t)) k = inp (t - (k + 1))"
  using delayer_run_bit [of k t s inp] by simp

text \<open>
  C10. For a \<open>cycles\<close> setting \<open>c\<close> of 2, 3, 4 or 5 the output at tick \<open>t\<close> is the
  input of tick \<open>t - c\<close>; for every other setting of the 4-bit \<open>cycles\<close> signal (0, 1 and
  6 to 15) it is the input of tick \<open>t - 1\<close>. No setting gives a delay above 5. (Before
  tick \<open>c\<close> the output shows the initial contents of the shift register.)
\<close>

theorem delayer_delay:
  "(c \<in> {2, 3, 4, 5} \<longrightarrow> unat c \<le> t \<longrightarrow>
      delayer_output c (delayer_run s inp t) = inp (t - unat c)) \<and>
   (c \<notin> {2, 3, 4, 5} \<longrightarrow> 1 \<le> t \<longrightarrow>
      delayer_output c (delayer_run s inp t) = inp (t - 1))"
proof -
  have t0: "1 \<le> t \<Longrightarrow> bit (shift_register (delayer_run s inp t)) 0 = inp (t - 1)"
    using delayer_tap [of 0 t s inp] by simp
  have t1: "2 \<le> t \<Longrightarrow> bit (shift_register (delayer_run s inp t)) 1 = inp (t - 2)"
    using delayer_tap [of 1 t s inp] by (simp add: eval_nat_numeral)
  have t2: "3 \<le> t \<Longrightarrow> bit (shift_register (delayer_run s inp t)) 2 = inp (t - 3)"
    using delayer_tap [of 2 t s inp] by (simp add: eval_nat_numeral)
  have t3: "4 \<le> t \<Longrightarrow> bit (shift_register (delayer_run s inp t)) 3 = inp (t - 4)"
    using delayer_tap [of 3 t s inp] by (simp add: eval_nat_numeral)
  have t4: "5 \<le> t \<Longrightarrow> bit (shift_register (delayer_run s inp t)) 4 = inp (t - 5)"
    using delayer_tap [of 4 t s inp] by (simp add: eval_nat_numeral)
  show ?thesis
    using t0 t1 t2 t3 t4 by (auto simp: delayer_output_def)
qed

theorem delayer_delay_witness:
  "delayer_output 3 (delayer_run delayer_reset pulse_at_4 7) = True \<and>
   delayer_output 9 (delayer_run delayer_reset pulse_at_4 5) = True"
  using delayer_delay [of 3 7 delayer_reset pulse_at_4]
    delayer_delay [of 9 5 delayer_reset pulse_at_4]
  by (simp add: pulse_at_4_def)

section \<open>Properties of AccOrTrans\<close>

lemma sint24_bounds: "- (2 ^ 23) \<le> sint (w :: 24 word)" "sint (w :: 24 word) < 2 ^ 23"
  using sint_ge [of w] sint_lt [of w] by simp_all

lemma iv_bounds: "- 8388608 \<le> iv i n" "iv i n < 8388608"
  using sint24_bounds [of "in_values i n"] by (simp_all add: iv_def)

lemma sint_assign28:
  "- (2 ^ 27) \<le> x \<Longrightarrow> x < 2 ^ 27 \<Longrightarrow> sint (word_of_int x :: 28 word) = x"
  by (simp add: sint_sbintrunc' signed_take_bit_int_eq_self)

lemma sint_assign32:
  "- (2 ^ 31) \<le> x \<Longrightarrow> x < 2 ^ 31 \<Longrightarrow> sint (word_of_int x :: 32 word) = x"
  by (simp add: sint_sbintrunc' signed_take_bit_int_eq_self)

lemma upt8: "[0..<8] = [0, 1, 2, 3, 4, 5, 6, 7]"
  by (simp add: upt_rec)

lemma upt16: "[0..<16] = [0, 1, 2, 3, 4, 5, 6, 7, 8, 9, 10, 11, 12, 13, 14, 15]"
  by (simp add: upt_rec)

text \<open>
  C1 as stated fails: with all sixteen products equal to 1 the accumulator holds 8 after
  the add pulse, while the sum of the sixteen products is 16.
\<close>

theorem pointwise_sum_16_counterexample:
  "accumulator (acc_step (acc_step acc_reset ones_in) ones_add_in) = 8 \<and>
   tree_sum (map (iv ones_in) [0..<16]) = 16"
  by (simp add: acc_step_def acc_step_P_def acc_reset_def ones_in_def ones_add_in_def
      all_ones_def tree_sum_def iv_def upt8 upt16)

text \<open>
  C1, amended. In pointwise mode the partial sum registered in \<open>add_sum\<close> is the exact sum
  of products 0 to 7 only (products 8 to 15 do not enter it), and an add-enable pulse in
  the following cycle, without clear, adds exactly that sum into the 32-bit accumulator.
\<close>

theorem pointwise_partial_sum:
  "\<not> acc_switch_PorD i \<Longrightarrow>
     sint (add_sum (acc_step s i)) =
       iv i 0 + iv i 1 + iv i 2 + iv i 3 + iv i 4 + iv i 5 + iv i 6 + iv i 7 \<and>
     (add_en j \<and> \<not> clear j \<and> \<not> acc_switch_PorD j \<longrightarrow>
        accumulator (acc_step (acc_step s i) j) =
          word_of_int (sint (accumulator (acc_step s i)) +
            (iv i 0 + iv i 1 + iv i 2 + iv i 3 + iv i 4 + iv i 5 + iv i 6 + iv i 7)))"
proof -
  assume P: "\<not> acc_switch_PorD i"
  let ?x = "iv i 0 + iv i 1 + iv i 2 + iv i 3 + iv i 4 + iv i 5 + iv i 6 + iv i 7"
  have b: "- (2 ^ 27) \<le> ?x" "?x < 2 ^ 27"
    using iv_bounds [of i 0] iv_bounds [of i 1] iv_bounds [of i 2] iv_bounds [of i 3]
      iv_bounds [of i 4] iv_bounds [of i 5] iv_bounds [of i 6] iv_bounds [of i 7]
    by simp_all
  have a: "add_sum (acc_step s i) = word_of_int ?x"
    using P by (simp add: acc_step_def acc_step_P_def tree_sum_def upt8)
  have s: "sint (add_sum (acc_step s i)) = ?x"
    unfolding a by (rule sint_assign28 [OF b])
  show ?thesis
    using s by (simp add: acc_step_def [of "acc_step s i" j] acc_step_P_def [of "acc_step s i" j])
qed

theorem pointwise_partial_sum_witness:
  "sint (add_sum (acc_step acc_reset ones_in)) = 8 \<and>
   accumulator (acc_step (acc_step acc_reset ones_in) ones_add_in) = 8"
  using pointwise_partial_sum [of ones_in acc_reset ones_add_in]
  by (simp add: ones_in_def ones_add_in_def all_ones_def iv_def acc_reset_def acc_step_def
      acc_step_P_def)

lemma Y_tmp_terms_bounds:
  "n < 4 \<Longrightarrow> - (2 ^ 27) \<le> tree_sum (Y_tmp_terms i n) \<and> tree_sum (Y_tmp_terms i n) < 2 ^ 27"
  using iv_bounds [of i 0] iv_bounds [of i 1] iv_bounds [of i 2] iv_bounds [of i 3]
    iv_bounds [of i 4] iv_bounds [of i 5] iv_bounds [of i 6] iv_bounds [of i 7]
    iv_bounds [of i 8] iv_bounds [of i 9] iv_bounds [of i 10] iv_bounds [of i 11]
    iv_bounds [of i 12] iv_bounds [of i 13] iv_bounds [of i 14] iv_bounds [of i 15]
  by (simp add: Y_tmp_terms_def tree_sum_def)

lemma sint_Y_tmp_terms:
  "n < 4 \<Longrightarrow> sint (word_of_int (tree_sum (Y_tmp_terms i n)) :: 32 word) = tree_sum (Y_tmp_terms i n)"
  using Y_tmp_terms_bounds [of n i] by (intro sint_assign32) simp_all

lemma sint_Y_combined:
  assumes "n < 4" "- (2 ^ 23) \<le> c" "c \<le> 2 ^ 23"
  shows "sint (word_of_int (tree_sum (Y_tmp_terms i n) + c) :: 32 word) = tree_sum (Y_tmp_terms i n) + c"
  using Y_tmp_terms_bounds [of n i] assms by (intro sint_assign32) simp_all

lemma acc_step_D_regs:
  "Y_tmp_0 (acc_step_D s i) = word_of_int (tree_sum (Y_tmp_terms i 0))"
  "Y_tmp_1 (acc_step_D s i) = word_of_int (tree_sum (Y_tmp_terms i 1))"
  "Y_tmp_2 (acc_step_D s i) = word_of_int (tree_sum (Y_tmp_terms i 2))"
  "Y_tmp_3 (acc_step_D s i) = word_of_int (tree_sum (Y_tmp_terms i 3))"
  "sint (late_in_values_0 (acc_step_D s i)) = iv i 12"
  "sint (late_in_values_1 (acc_step_D s i)) = iv i 13"
  "sint (late_in_values_2 (acc_step_D s i)) = iv i 14"
  "sint (late_in_values_3 (acc_step_D s i)) = iv i 15"
  "Y_0 (acc_step_D s i) = word_of_int (sint (Y_tmp_0 s) + sint (late_in_values_0 s))"
  "Y_1 (acc_step_D s i) = word_of_int (sint (Y_tmp_1 s) + - sint (late_in_values_1 s))"
  "Y_2 (acc_step_D s i) = word_of_int (sint (Y_tmp_2 s) + - sint (late_in_values_2 s))"
  "Y_3 (acc_step_D s i) = word_of_int (sint (Y_tmp_3 s) + sint (late_in_values_3 s))"
  by (simp_all add: acc_step_D_def iv_def)

lemma acc_two_steps_Y:
  "sint (Y_0 (acc_step_D (acc_step_D s i) j)) = tree_sum (Y_tmp_terms i 0) + iv i 12"
  "sint (Y_1 (acc_step_D (acc_step_D s i) j)) = tree_sum (Y_tmp_terms i 1) - iv i 13"
  "sint (Y_2 (acc_step_D (acc_step_D s i) j)) = tree_sum (Y_tmp_terms i 2) - iv i 14"
  "sint (Y_3 (acc_step_D (acc_step_D s i) j)) = tree_sum (Y_tmp_terms i 3) + iv i 15"
proof -
  have b: "- (2 ^ 23) \<le> iv i 12" "iv i 12 \<le> 2 ^ 23" "- (2 ^ 23) \<le> - iv i 13" "- iv i 13 \<le> 2 ^ 23"
    "- (2 ^ 23) \<le> - iv i 14" "- iv i 14 \<le> 2 ^ 23" "- (2 ^ 23) \<le> iv i 15" "iv i 15 \<le> 2 ^ 23"
    using iv_bounds [of i 12] iv_bounds [of i 13] iv_bounds [of i 14] iv_bounds [of i 15]
    by simp_all
  have n: "(0::nat) < 4" "(1::nat) < 4" "(2::nat) < 4" "(3::nat) < 4" by simp_all
  show "sint (Y_0 (acc_step_D (acc_step_D s i) j)) = tree_sum (Y_tmp_terms i 0) + iv i 12"
    by (simp only: acc_step_D_regs sint_Y_tmp_terms [OF n(1)] sint_Y_combined [OF n(1) b(1,2)])
  have "sint (Y_1 (acc_step_D (acc_step_D s i) j)) = tree_sum (Y_tmp_terms i 1) + - iv i 13"
    by (simp only: acc_step_D_regs sint_Y_tmp_terms [OF n(2)] sint_Y_combined [OF n(2) b(3,4)])
  then show "sint (Y_1 (acc_step_D (acc_step_D s i) j)) = tree_sum (Y_tmp_terms i 1) - iv i 13"
    by simp
  have "sint (Y_2 (acc_step_D (acc_step_D s i) j)) = tree_sum (Y_tmp_terms i 2) + - iv i 14"
    by (simp only: acc_step_D_regs sint_Y_tmp_terms [OF n(3)] sint_Y_combined [OF n(3) b(5,6)])
  then show "sint (Y_2 (acc_step_D (acc_step_D s i) j)) = tree_sum (Y_tmp_terms i 2) - iv i 14"
    by simp
  show "sint (Y_3 (acc_step_D (acc_step_D s i) j)) = tree_sum (Y_tmp_terms i 3) + iv i 15"
    by (simp only: acc_step_D_regs sint_Y_tmp_terms [OF n(4)] sint_Y_combined [OF n(4) b(7,8)])
qed

lemma shift2_assign32:
  "sint (word_of_int (sint (y :: 32 word) div 4) :: 32 word) = sint y div 4"
proof -
  have "- (2 ^ 31) \<le> sint y" "sint y < 2 ^ 31"
    using sint_ge [of y] sint_lt [of y] by simp_all
  then have "- (2 ^ 31) \<le> sint y div 4" "sint y div 4 < 2 ^ 31" by linarith+
  then show ?thesis by (simp add: sint_assign32)
qed

lemma acc_result_D:
  "acc_switch_PorD k \<Longrightarrow> sint (acc_result s k 0) = sint (Y_0 s) div 4"
  "acc_switch_PorD k \<Longrightarrow> sint (acc_result s k 1) = sint (Y_1 s) div 4"
  "acc_switch_PorD k \<Longrightarrow> sint (acc_result s k 2) = sint (Y_2 s) div 4"
  "acc_switch_PorD k \<Longrightarrow> sint (acc_result s k 3) = sint (Y_3 s) div 4"
  by (simp_all add: acc_result_def shift2_assign32)

lemma acc_step_D_transfer:
  "acc_switch_PorD k \<Longrightarrow>
     Y_0 (acc_step s k) = Y_tmp_0 s + scast (late_in_values_0 s) \<and>
     Y_1 (acc_step s k) = Y_tmp_1 s - scast (late_in_values_1 s) \<and>
     Y_2 (acc_step s k) = Y_tmp_2 s - scast (late_in_values_2 s) \<and>
     Y_3 (acc_step s k) = Y_tmp_3 s + scast (late_in_values_3 s) \<and>
     late_in_values_0 (acc_step s k) = in_values k 12 \<and>
     late_in_values_1 (acc_step s k) = in_values k 13 \<and>
     late_in_values_2 (acc_step s k) = in_values k 14 \<and>
     late_in_values_3 (acc_step s k) = in_values k 15"
  by (simp add: acc_step_def acc_step_D_def)

text \<open>
  C2. In depthwise mode, at every clock edge \<open>Y_tmp[n]\<close> takes the signed combination of
  eight of the sixteen products that is wired to it (for lane 0, products 0, 2, 8, 1, 3,
  9, 4 and 6, all added; the other lanes as written out below), \<open>late_in_values[0..3]\<close>
  take products 12 to 15, and \<open>Y[n]\<close> takes \<open>Y_tmp[n]\<close> combined with
  \<open>late_in_values[n]\<close>, both registered at the edge before: added for lanes 0 and 3,
  subtracted for lanes 1 and 2; output lane \<open>n\<close> is \<open>Y[n]\<close> shifted right arithmetically
  by 2, that is, divided by 4 rounding towards minus infinity. So two clock edges after
  sixteen products are presented, output lane \<open>n\<close> is that combination of the products,
  plus product 12 (lane 0), minus product 13 (lane 1), minus product 14 (lane 2), plus
  product 15 (lane 3), divided by 4 in that way; no intermediate value overflows.
\<close>

theorem depthwise_transform:
  assumes "acc_switch_PorD i" "acc_switch_PorD j" "acc_switch_PorD k"
  shows "sint (acc_result (acc_step (acc_step s i) j) k 0) =
           (sint (in_values i 0) + sint (in_values i 2) + sint (in_values i 8)
            + sint (in_values i 1) + sint (in_values i 3) + sint (in_values i 9)
            + sint (in_values i 4) + sint (in_values i 6) + sint (in_values i 12)) div 4 \<and>
         sint (acc_result (acc_step (acc_step s i) j) k 1) =
           (sint (in_values i 1) + sint (in_values i 3) + sint (in_values i 9)
            - sint (in_values i 4) - sint (in_values i 6) - sint (in_values i 12)
            - sint (in_values i 5) - sint (in_values i 7) - sint (in_values i 13)) div 4 \<and>
         sint (acc_result (acc_step (acc_step s i) j) k 2) =
           (sint (in_values i 2) - sint (in_values i 8) - sint (in_values i 10)
            + sint (in_values i 3) - sint (in_values i 9) - sint (in_values i 11)
            + sint (in_values i 6) - sint (in_values i 12) - sint (in_values i 14)) div 4 \<and>
         sint (acc_result (acc_step (acc_step s i) j) k 3) =
           (sint (in_values i 3) - sint (in_values i 9) - sint (in_values i 11)
            - sint (in_values i 6) + sint (in_values i 12) + sint (in_values i 14)
            - sint (in_values i 7) + sint (in_values i 13) + sint (in_values i 15)) div 4 \<and>
         sint (Y_tmp_0 (acc_step s i)) =
           sint (in_values i 0) + sint (in_values i 2) + sint (in_values i 8)
           + sint (in_values i 1) + sint (in_values i 3) + sint (in_values i 9)
           + sint (in_values i 4) + sint (in_values i 6) \<and>
         sint (Y_tmp_1 (acc_step s i)) =
           sint (in_values i 1) + sint (in_values i 3) + sint (in_values i 9)
           - sint (in_values i 4) - sint (in_values i 6) - sint (in_values i 12)
           - sint (in_values i 5) - sint (in_values i 7) \<and>
         sint (Y_tmp_2 (acc_step s i)) =
           sint (in_values i 2) - sint (in_values i 8) - sint (in_values i 10)
           + sint (in_values i 3) - sint (in_values i 9) - sint (in_values i 11)
           + sint (in_values i 6) - sint (in_values i 12) \<and>
         sint (Y_tmp_3 (acc_step s i)) =
           sint (in_values i 3) - sint (in_values i 9) - sint (in_values i 11)
           - sint (in_values i 6) + sint (in_values i 12) + sint (in_values i 14)
           - sint (in_values i 7) + sint (in_values i 13) \<and>
         Y_0 (acc_step s i) = Y_tmp_0 s + scast (late_in_values_0 s) \<and>
         Y_1 (acc_step s i) = Y_tmp_1 s - scast (late_in_values_1 s) \<and>
         Y_2 (acc_step s i) = Y_tmp_2 s - scast (late_in_values_2 s) \<and>
         Y_3 (acc_step s i) = Y_tmp_3 s + scast (late_in_values_3 s) \<and>
         late_in_values_0 (acc_step s i) = in_values i 12 \<and>
         late_in_values_1 (acc_step s i) = in_values i 13 \<and>
         late_in_values_2 (acc_step s i) = in_values i 14 \<and>
         late_in_values_3 (acc_step s i) = in_values i 15 \<and>
         sint (acc_result s k 0) = sint (Y_0 s) div 4 \<and>
         sint (acc_result s k 1) = sint (Y_1 s) div 4 \<and>
         sint (acc_result s k 2) = sint (Y_2 s) div 4 \<and>
         sint (acc_result s k 3) = sint (Y_3 s) div 4"
proof -
  have st: "acc_step (acc_step s i) j = acc_step_D (acc_step_D s i) j"
    using assms by (simp add: acc_step_def)
  have t: "tree_sum (Y_tmp_terms i 0) =
       sint (in_values i 0) + sint (in_values i 2) + sint (in_values i 8)
       + sint (in_values i 1) + sint (in_values i 3) + sint (in_values i 9)
       + sint (in_values i 4) + sint (in_values i 6)"
    "tree_sum (Y_tmp_terms i 1) =
       sint (in_values i 1) + sint (in_values i 3) + sint (in_values i 9)
       - sint (in_values i 4) - sint (in_values i 6) - sint (in_values i 12)
       - sint (in_values i 5) - sint (in_values i 7)"
    "tree_sum (Y_tmp_terms i 2) =
       sint (in_values i 2) - sint (in_values i 8) - sint (in_values i 10)
       + sint (in_values i 3) - sint (in_values i 9) - sint (in_values i 11)
       + sint (in_values i 6) - sint (in_values i 12)"
    "tree_sum (Y_tmp_terms i 3) =
       sint (in_values i 3) - sint (in_values i 9) - sint (in_values i 11)
       - sint (in_values i 6) + sint (in_values i 12) + sint (in_values i 14)
       - sint (in_values i 7) + sint (in_values i 13)"
    by (simp_all add: Y_tmp_terms_def tree_sum_def iv_def)
  have e0: "sint (acc_result (acc_step (acc_step s i) j) k 0) =
           (tree_sum (Y_tmp_terms i 0) + iv i 12) div 4 \<and>
         sint (acc_result (acc_step (acc_step s i) j) k 1) =
           (tree_sum (Y_tmp_terms i 1) - iv i 13) div 4 \<and>
         sint (acc_result (acc_step (acc_step s i) j) k 2) =
           (tree_sum (Y_tmp_terms i 2) - iv i 14) div 4 \<and>
         sint (acc_result (acc_step (acc_step s i) j) k 3) =
           (tree_sum (Y_tmp_terms i 3) + iv i 15) div 4"
    unfolding st
    by (simp only: acc_result_D [OF assms(3)] acc_two_steps_Y simp_thms)
  have e: "sint (acc_result (acc_step (acc_step s i) j) k 0) =
           (sint (in_values i 0) + sint (in_values i 2) + sint (in_values i 8)
            + sint (in_values i 1) + sint (in_values i 3) + sint (in_values i 9)
            + sint (in_values i 4) + sint (in_values i 6) + sint (in_values i 12)) div 4 \<and>
         sint (acc_result (acc_step (acc_step s i) j) k 1) =
           (sint (in_values i 1) + sint (in_values i 3) + sint (in_values i 9)
            - sint (in_values i 4) - sint (in_values i 6) - sint (in_values i 12)
            - sint (in_values i 5) - sint (in_values i 7) - sint (in_values i 13)) div 4 \<and>
         sint (acc_result (acc_step (acc_step s i) j) k 2) =
           (sint (in_values i 2) - sint (in_values i 8) - sint (in_values i 10)
            + sint (in_values i 3) - sint (in_values i 9) - sint (in_values i 11)
            + sint (in_values i 6) - sint (in_values i 12) - sint (in_values i 14)) div 4 \<and>
         sint (acc_result (acc_step (acc_step s i) j) k 3) =
           (sint (in_values i 3) - sint (in_values i 9) - sint (in_values i 11)
            - sint (in_values i 6) + sint (in_values i 12) + sint (in_values i 14)
            - sint (in_values i 7) + sint (in_values i 13) + sint (in_values i 15)) div 4"
    using e0 by (simp only: t iv_def)
  have n: "(0::nat) < 4" "(1::nat) < 4" "(2::nat) < 4" "(3::nat) < 4" by simp_all
  have y0: "sint (Y_tmp_0 (acc_step s i)) = tree_sum (Y_tmp_terms i 0) \<and>
         sint (Y_tmp_1 (acc_step s i)) = tree_sum (Y_tmp_terms i 1) \<and>
         sint (Y_tmp_2 (acc_step s i)) = tree_sum (Y_tmp_terms i 2) \<and>
         sint (Y_tmp_3 (acc_step s i)) = tree_sum (Y_tmp_terms i 3)"
    using assms(1) sint_Y_tmp_terms [OF n(1), of i] sint_Y_tmp_terms [OF n(2), of i]
      sint_Y_tmp_terms [OF n(3), of i] sint_Y_tmp_terms [OF n(4), of i]
    by (simp only: acc_step_def acc_step_D_regs simp_thms if_False)
  have y: "sint (Y_tmp_0 (acc_step s i)) =
           sint (in_values i 0) + sint (in_values i 2) + sint (in_values i 8)
           + sint (in_values i 1) + sint (in_values i 3) + sint (in_values i 9)
           + sint (in_values i 4) + sint (in_values i 6) \<and>
         sint (Y_tmp_1 (acc_step s i)) =
           sint (in_values i 1) + sint (in_values i 3) + sint (in_values i 9)
           - sint (in_values i 4) - sint (in_values i 6) - sint (in_values i 12)
           - sint (in_values i 5) - sint (in_values i 7) \<and>
         sint (Y_tmp_2 (acc_step s i)) =
           sint (in_values i 2) - sint (in_values i 8) - sint (in_values i 10)
           + sint (in_values i 3) - sint (in_values i 9) - sint (in_values i 11)
           + sint (in_values i 6) - sint (in_values i 12) \<and>
         sint (Y_tmp_3 (acc_step s i)) =
           sint (in_values i 3) - sint (in_values i 9) - sint (in_values i 11)
           - sint (in_values i 6) + sint (in_values i 12) + sint (in_values i 14)
           - sint (in_values i 7) + sint (in_values i 13)"
    using y0 by (simp only: t)
  show ?thesis
    using e y acc_step_D_transfer [OF assms(1), of s] acc_result_D [OF assms(3), of s]
    by (simp only: simp_thms)
qed

theorem depthwise_transform_witness:
  "sint (acc_result (acc_step (acc_step acc_reset ramp_dw_in) ramp_dw_in) ramp_dw_in 0) = 11 \<and>
   sint (acc_result (acc_step (acc_step acc_reset ramp_dw_in) ramp_dw_in) ramp_dw_in 1) = - 9 \<and>
   sint (acc_result (acc_step (acc_step acc_reset ramp_dw_in) ramp_dw_in) ramp_dw_in 2) = - 14 \<and>
   sint (acc_result (acc_step (acc_step acc_reset ramp_dw_in) ramp_dw_in) ramp_dw_in 3) = 6 \<and>
   sint (Y_tmp_0 (acc_step acc_reset ramp_dw_in)) = 33 \<and>
   sint (Y_tmp_1 (acc_step acc_reset ramp_dw_in)) = - 21 \<and>
   sint (Y_tmp_2 (acc_step acc_reset ramp_dw_in)) = - 39 \<and>
   sint (Y_tmp_3 (acc_step acc_reset ramp_dw_in)) = 9"
proof -
  have m: "acc_switch_PorD ramp_dw_in" by (simp add: ramp_dw_in_def)
  have v: "sint (in_values ramp_dw_in 0) = 0" "sint (in_values ramp_dw_in 1) = 1"
    "sint (in_values ramp_dw_in 2) = 2" "sint (in_values ramp_dw_in 3) = 3"
    "sint (in_values ramp_dw_in 4) = 4" "sint (in_values ramp_dw_in 5) = 5"
    "sint (in_values ramp_dw_in 6) = 6" "sint (in_values ramp_dw_in 7) = 7"
    "sint (in_values ramp_dw_in 8) = 8" "sint (in_values ramp_dw_in 9) = 9"
    "sint (in_values ramp_dw_in 10) = 10" "sint (in_values ramp_dw_in 11) = 11"
    "sint (in_values ramp_dw_in 12) = 12" "sint (in_values ramp_dw_in 13) = 13"
    "sint (in_values ramp_dw_in 14) = 14" "sint (in_values ramp_dw_in 15) = 15"
    "sint (in_values ramp_dw_in (Suc 0)) = 1"
    by (simp_all add: ramp_dw_in_def ramp_def)
  show ?thesis
    using depthwise_transform [OF m m m, of acc_reset]
    by (simp add: v)
qed

lemma assign32_add:
  "(word_of_int (sint (a :: 32 word) + sint (b :: 28 word)) :: 32 word) = a + scast b"
  by simp

text \<open>
  C3. In pointwise mode: a cycle with clear leaves the accumulator zero at the next edge,
  also when add_en is asserted; the result output of a cycle is the accumulator when
  add_en is low and accumulator plus \<open>add_sum\<close> (in 32-bit arithmetic) when add_en is
  high, which is the value the accumulator itself takes at the next edge unless cleared.
\<close>

theorem pointwise_accumulator:
  "\<not> acc_switch_PorD i \<Longrightarrow>
     (clear i \<longrightarrow> accumulator (acc_step s i) = 0) \<and>
     (\<not> add_en i \<longrightarrow> acc_result s i 0 = accumulator s) \<and>
     (add_en i \<longrightarrow> acc_result s i 0 = accumulator s + scast (add_sum s)) \<and>
     (add_en i \<and> \<not> clear i \<longrightarrow> accumulator (acc_step s i) = acc_result s i 0) \<and>
     (\<not> add_en i \<and> \<not> clear i \<longrightarrow> accumulator (acc_step s i) = accumulator s)"
  by (simp add: acc_step_def acc_step_P_def acc_result_def assign32_add)

theorem pointwise_accumulator_witness:
  "accumulator (acc_step (acc_step acc_reset ones_in) ones_clear_add_in) = 0 \<and>
   acc_result (acc_step acc_reset ones_in) ones_clear_add_in 0 = 8 \<and>
   acc_result (acc_step acc_reset ones_in) ones_in 0 = 0 \<and>
   accumulator (acc_step (acc_step acc_reset ones_in) ones_add_in) = 8"
  using pointwise_accumulator [of ones_clear_add_in "acc_step acc_reset ones_in"]
    pointwise_accumulator [of ones_in "acc_step acc_reset ones_in"]
    pointwise_accumulator [of ones_add_in "acc_step acc_reset ones_in"]
  by (simp add: ones_in_def ones_add_in_def ones_clear_add_in_def all_ones_def iv_def
      acc_reset_def acc_step_def acc_step_P_def tree_sum_def upt8)

section \<open>Properties of the Sequencer\<close>

lemma upcounter_step_hold: "upcounter_step w n m False False = n"
  by (simp add: upcounter_step_def)

lemma seq_step_gate_closed:
  "\<not> seq_gate s i \<Longrightarrow> \<not> seq_restart i \<Longrightarrow>
     f_count (seq_step c s i) = f_count s \<and> fnext_count (seq_step c s i) = fnext_count s"
  by (simp add: seq_step_def upcounter_step_hold)

lemma seq_run_stalled:
  "\<forall>i \<in> set is. \<not> fifo_has_space i \<and> \<not> seq_restart i \<Longrightarrow>
     f_count (seq_run c s is) = f_count s \<and> fnext_count (seq_run c s is) = fnext_count s"
proof (induction "is" arbitrary: s)
  case Nil
  then show ?case by simp
next
  case (Cons i "is")
  then have "\<not> seq_gate s i" "\<not> seq_restart i" by (simp_all add: seq_gate_def)
  with seq_step_gate_closed [of s i c] Cons show ?case by simp
qed

lemma seq_run_stalled_running:
  "\<forall>i \<in> set is. \<not> fifo_has_space i \<and> \<not> start_run i \<Longrightarrow>
     running (seq_run c s is) = running s"
proof (induction "is" arbitrary: s)
  case Nil
  then show ?case by simp
next
  case (Cons i "is")
  then have "\<not> seq_gate s i" "\<not> start_run i" by (simp_all add: seq_gate_def)
  then have "running (seq_step c s i) = running s"
    by (simp add: seq_step_def all_output_finished_def upcounter_done_def)
  with Cons show ?case by simp
qed

text \<open>
  C4 as stated fails for the input-word counter. After one gated cycle and two stalled
  cycles the gate is closed (the FIFO has no space), yet the pulse that entered the
  multiply delay line three cycles earlier now enables \<open>i_count\<close>, which advances from 0
  to 1.
\<close>

theorem seq_counter_advances_counterexample:
  "\<not> seq_gate (seq_run seq_cfg8 seq_reset [seq_go, seq_stall, seq_stall]) seq_stall \<and>
   i_count (seq_run seq_cfg8 seq_reset [seq_go, seq_stall, seq_stall]) = 0 \<and>
   i_count (seq_step seq_cfg8 (seq_run seq_cfg8 seq_reset [seq_go, seq_stall, seq_stall]) seq_stall) = 1"
  by (simp add: seq_gate_def seq_step_def seq_reset_def seq_cfg8_def seq_go_def seq_stall_def
      upcounter_step_def upcounter_done_def delayer_step_def delayer_output_def delayer_reset_def
      mul_done_def acc_done_def pp_done_def all_output_finished_def f_count_max_def i_count_max_def)

text \<open>
  C4, amended. The gate is \<open>(running \<or> start_run) \<and> in_store_ready \<and> fifo_has_space\<close>,
  hence closed whenever the FIFO has no space. While the gate is closed and restart is
  not asserted, the two counters enabled by the gate (\<open>f_count\<close> and \<open>fnext_count\<close>) keep
  their values, over a stall of any length, so they resume from exactly those values;
  the \<open>running\<close> latch is kept too over a stall without \<open>start_run\<close>.
  The input-word counter and the 4-counter are enabled by the delayed pulses \<open>mul_done\<close>
  and \<open>pp_done\<close>: each keeps its value in a cycle where its own enable is low and restart
  is not asserted.
\<close>

theorem seq_backpressure:
  "seq_gate s i = ((running s \<or> start_run i) \<and> in_store_ready i \<and> fifo_has_space i) \<and>
   (\<not> fifo_has_space i \<longrightarrow> \<not> seq_gate s i) \<and>
   (\<not> seq_gate s i \<and> \<not> seq_restart i \<longrightarrow>
      f_count (seq_step c s i) = f_count s \<and> fnext_count (seq_step c s i) = fnext_count s) \<and>
   (\<not> mul_done s i \<and> \<not> seq_restart i \<longrightarrow> i_count (seq_step c s i) = i_count s) \<and>
   (\<not> pp_done c s \<and> \<not> seq_restart i \<longrightarrow> four_count (seq_step c s i) = four_count s) \<and>
   ((\<forall>j \<in> set js. \<not> fifo_has_space j \<and> \<not> seq_restart j) \<longrightarrow>
      f_count (seq_run c s js) = f_count s \<and> fnext_count (seq_run c s js) = fnext_count s) \<and>
   ((\<forall>j \<in> set js. \<not> fifo_has_space j \<and> \<not> start_run j) \<longrightarrow>
      running (seq_run c s js) = running s)"
  using seq_run_stalled [of js c s] seq_step_gate_closed [of s i c]
    seq_run_stalled_running [of js c s]
  by (auto simp: seq_gate_def seq_step_def upcounter_step_hold)

theorem seq_backpressure_witness:
  "\<not> seq_gate (seq_step seq_cfg8 seq_reset seq_go) seq_stall \<and>
   f_count (seq_run seq_cfg8 (seq_step seq_cfg8 seq_reset seq_go) [seq_stall, seq_stall]) = 1 \<and>
   fnext_count (seq_run seq_cfg8 (seq_step seq_cfg8 seq_reset seq_go) [seq_stall, seq_stall]) = 1 \<and>
   i_count (seq_step seq_cfg8 (seq_step seq_cfg8 seq_reset seq_go) seq_stall) = 0 \<and>
   four_count (seq_step seq_cfg8 (seq_step seq_cfg8 seq_reset seq_go) seq_stall) = 0"
  using seq_backpressure [of "seq_step seq_cfg8 seq_reset seq_go" seq_stall seq_cfg8 "[seq_stall, seq_stall]"]
  by (simp add: seq_gate_def seq_step_def seq_reset_def seq_cfg8_def seq_go_def seq_stall_def
      upcounter_step_def upcounter_done_def delayer_step_def delayer_output_def delayer_reset_def
      mul_done_def acc_done_def pp_done_def all_output_finished_def f_count_max_def i_count_max_def)

section \<open>Properties of the CircularIncrementer\<close>

lemma bit_length_bound: "n < 2 ^ bit_length n"
proof (induction n rule: bit_length.induct)
  case (1 n)
  show ?case
  proof (cases "n = 0")
    case True
    then show ?thesis by simp
  next
    case False
    with 1 have "n div 2 < 2 ^ bit_length (n div 2)" by simp
    then have "n < 2 * 2 ^ bit_length (n div 2)" by linarith
    with False show ?thesis by (subst bit_length.simps) simp
  qed
qed

lemma range_width_bound: "0 < n \<Longrightarrow> n \<le> 2 ^ range_width n"
proof -
  assume n: "0 < n"
  have "n - 1 < 2 ^ bit_length (n - 1)" by (rule bit_length_bound)
  also have "(2::nat) ^ bit_length (n - 1) \<le> 2 ^ max 1 (bit_length (n - 1))"
    by (rule power_increasing) simp_all
  finally show ?thesis using n by (simp add: range_width_def)
qed

text \<open>Every limit from 1 to the depth is a value of the limit signal, except the depth
  itself when it is the power of two \<open>2 ^ range_width depth\<close>.\<close>

lemma limit_representable:
  "1 \<le> L \<Longrightarrow> L \<le> depth \<Longrightarrow> L \<noteq> 2 ^ range_width depth \<Longrightarrow> L < 2 ^ range_width depth"
  using range_width_bound [of depth] by simp

lemma limit_minus_1_pos: "1 \<le> l \<Longrightarrow> l < 2 ^ w \<Longrightarrow> limit_minus_1 sd w l = int l - 1"
proof -
  assume l: "1 \<le> l" "l < 2 ^ w"
  have "(2::nat) ^ w \<le> 2 ^ (max w 1 + 1)" by (rule power_increasing) simp_all
  with l have "l < 2 ^ (max w 1 + 1)" by simp
  then have "int l < 2 ^ (max w 1 + 1)"
    by (metis of_nat_less_iff of_nat_numeral of_nat_power)
  with l(1) have "(int l - 1) mod 2 ^ (max w 1 + 1) = int l - 1" by simp
  then show ?thesis by (simp add: limit_minus_1_def)
qed

lemma ci_r_addr_cases:
  assumes "1 \<le> L" "L < 2 ^ range_width depth" "last_addr s < L" "ci_limit i = L"
  shows "(ci_restart i \<longrightarrow> ci_r_addr sd depth s i = 0) \<and>
     (\<not> ci_restart i \<and> ci_next i \<longrightarrow>
        ci_r_addr sd depth s i = (if last_addr s = L - 1 then 0 else last_addr s + 1)) \<and>
     (\<not> ci_restart i \<and> \<not> ci_next i \<longrightarrow> ci_r_addr sd depth s i = last_addr s) \<and>
     ci_r_addr sd depth s i \<le> L - 1"
proof -
  have g: "ci_limit_sig depth i = L" using assms by (simp add: ci_limit_sig_def)
  have l: "limit_minus_1 sd (range_width depth) (ci_limit_sig depth i) = int L - 1"
    unfolding g using assms(1,2) by (rule limit_minus_1_pos)
  have "Suc (last_addr s) < 2 ^ range_width depth" using assms by simp
  then have m: "Suc (last_addr s) mod 2 ^ range_width depth = Suc (last_addr s)" by simp
  have c: "(int L - 1 \<le> int (last_addr s)) = (last_addr s = L - 1)"
    using assms by auto
  have e: "(ci_restart i \<longrightarrow> ci_r_addr sd depth s i = 0) \<and>
     (\<not> ci_restart i \<and> ci_next i \<longrightarrow>
        ci_r_addr sd depth s i = (if last_addr s = L - 1 then 0 else last_addr s + 1)) \<and>
     (\<not> ci_restart i \<and> \<not> ci_next i \<longrightarrow> ci_r_addr sd depth s i = last_addr s)"
    by (simp add: ci_r_addr_def l m c)
  then have "ci_r_addr sd depth s i \<le> L - 1"
    using assms(1,3) by (cases "ci_restart i"; cases "ci_next i") (auto split: if_splits)
  with e show ?thesis by simp
qed

lemma ci_run_inv:
  "1 \<le> L \<Longrightarrow> L < 2 ^ range_width depth \<Longrightarrow> last_addr s < L \<Longrightarrow>
     \<forall>j \<in> set js. ci_limit j = L \<Longrightarrow> last_addr (ci_run sd depth s js) < L"
proof (induction js arbitrary: s)
  case Nil
  then show ?case by simp
next
  case (Cons j js)
  have "ci_r_addr sd depth s j \<le> L - 1"
    using Cons.prems ci_r_addr_cases [of L depth s j sd] by simp
  then have "last_addr (ci_step sd depth s j) < L"
    using Cons.prems(1) by (simp add: ci_step_def)
  with Cons show ?case by simp
qed

lemma ci_run_snoc:
  "ci_run sd depth s (js @ [j]) = ci_step sd depth (ci_run sd depth s js) j"
  by (induction js arbitrary: s) simp_all

text \<open>
  C6 as stated fails for \<open>limit = depth\<close> when the depth is a power of two: the limit
  signal of a depth-4 incrementer has two bits and holds 0 for the value 4. With the
  signed difference, \<open>last_addr \<ge> limit - 1\<close> then holds for every address, and a next
  pulse from address 0 presents 0 where the claim has \<open>last + 1 = 1\<close>.
\<close>

theorem circular_incrementer_limit_depth_counterexample:
  "ci_limit_sig 4 (ci_go 4) = 0 \<and>
   ci_r_addr True 4 ci_reset (ci_go 4) = 0 \<and>
   ci_r_addr True 4 ci_reset (ci_go 4) \<noteq>
     (if last_addr ci_reset = 4 - 1 then 0 else last_addr ci_reset + 1)"
proof -
  have bl: "bit_length 3 = 2" by code_simp
  have w: "range_width 4 = 2" by (simp add: range_width_def bl)
  show ?thesis
    by (simp add: ci_limit_sig_def ci_r_addr_def ci_go_def ci_reset_def limit_minus_1_def w)
qed

text \<open>With the unsigned difference the same input sees \<open>limit - 1 = 7\<close>, above every
  address, and the address wraps by the truncation to two bits, at \<open>depth - 1\<close>.\<close>

lemma ci_limit_depth_unsigned_diff:
  "ci_r_addr False 4 ci_reset (ci_go 4) = 1 \<and>
   ci_r_addr False 4 \<lparr>last_addr = 3\<rparr> (ci_go 4) = 0"
proof -
  have bl: "bit_length 3 = 2" by code_simp
  have w: "range_width 4 = 2" by (simp add: range_width_def bl)
  show ?thesis
    by (simp add: ci_limit_sig_def ci_r_addr_def ci_go_def ci_reset_def limit_minus_1_def w)
qed

text \<open>
  C6, amended. Let the limit be a constant \<open>L\<close> from 1 up to the depth, other than
  \<open>2 ^ range_width depth\<close> (which is the depth itself when the depth is a power of two, and
  is not a value of the limit signal). Start from a state whose last address is below \<open>L\<close>
  (the reset state, or the state after a restart). Then, whichever shape the toolchain
  gives the difference, after any sequence of cycles: with restart the address presented
  is 0; with next and no restart it is \<open>last + 1\<close>, or 0 when \<open>last = L - 1\<close>; otherwise it
  is \<open>last\<close>; it never exceeds \<open>L - 1\<close>; and it is the last address of the next cycle.
\<close>

theorem circular_incrementer_wraps:
  assumes "1 \<le> L" "L \<le> depth" "L \<noteq> 2 ^ range_width depth" "last_addr s0 < L"
    "\<forall>j \<in> set js. ci_limit j = L" "ci_limit i = L"
  shows "last_addr (ci_run sd depth s0 js) \<le> L - 1 \<and>
     (ci_restart i \<longrightarrow> ci_r_addr sd depth (ci_run sd depth s0 js) i = 0) \<and>
     (\<not> ci_restart i \<and> ci_next i \<longrightarrow>
        ci_r_addr sd depth (ci_run sd depth s0 js) i =
          (if last_addr (ci_run sd depth s0 js) = L - 1 then 0
           else last_addr (ci_run sd depth s0 js) + 1)) \<and>
     (\<not> ci_restart i \<and> \<not> ci_next i \<longrightarrow>
        ci_r_addr sd depth (ci_run sd depth s0 js) i = last_addr (ci_run sd depth s0 js)) \<and>
     ci_r_addr sd depth (ci_run sd depth s0 js) i \<le> L - 1 \<and>
     last_addr (ci_run sd depth s0 (js @ [i])) = ci_r_addr sd depth (ci_run sd depth s0 js) i"
proof -
  have r: "L < 2 ^ range_width depth"
    using assms(1-3) by (rule limit_representable)
  have inv: "last_addr (ci_run sd depth s0 js) < L"
    using assms(1) r assms(4,5) by (rule ci_run_inv)
  then have b: "last_addr (ci_run sd depth s0 js) \<le> L - 1" by simp
  have la: "last_addr (ci_run sd depth s0 (js @ [i])) =
      ci_r_addr sd depth (ci_run sd depth s0 js) i"
    by (simp add: ci_run_snoc ci_step_def)
  from b la ci_r_addr_cases [OF assms(1) r inv assms(6), of sd] show ?thesis by simp
qed

theorem circular_incrementer_wraps_witness:
  "last_addr (ci_run True 4 ci_reset [ci_go 3, ci_go 3]) = 2 \<and>
   ci_r_addr True 4 (ci_run True 4 ci_reset [ci_go 3, ci_go 3]) (ci_go 3) = 0 \<and>
   last_addr (ci_run True 4 ci_reset [ci_go 3, ci_go 3, ci_go 3]) = 0 \<and>
   ci_r_addr False 4 (ci_run False 4 ci_reset [ci_go 3]) (ci_go 3) = 2 \<and>
   ci_r_addr True 4 (ci_run True 4 ci_reset [ci_go 3]) (ci_again 3) = 0 \<and>
   ci_r_addr True 4 (ci_run True 4 ci_reset [ci_go 3]) (ci_hold 3) = 1 \<and>
   last_addr (ci_run True 4 ci_reset [ci_go 3, ci_hold 3]) = 1 \<and>
   last_addr (ci_run True 5 ci_reset [ci_go 5, ci_go 5, ci_go 5, ci_go 5]) = 4 \<and>
   ci_r_addr True 5 (ci_run True 5 ci_reset [ci_go 5, ci_go 5, ci_go 5, ci_go 5]) (ci_go 5) = 0 \<and>
   ci_r_addr True 1 (ci_run True 1 ci_reset [ci_go 1]) (ci_go 1) = 0"
proof -
  have bl: "bit_length 3 = 2" "bit_length 4 = 3" "bit_length 0 = 0" by code_simp+
  have w: "range_width 4 = 2" "range_width 5 = 3" "range_width (Suc 0) = 1"
    by (simp_all add: range_width_def bl)
  have v: "ci_limit (ci_go l) = l" "ci_limit (ci_hold l) = l" "ci_limit (ci_again l) = l"
    "ci_next (ci_go l)" "\<not> ci_restart (ci_go l)" "ci_restart (ci_again l)"
    "\<not> ci_next (ci_hold l)" "\<not> ci_restart (ci_hold l)" for l
    by (simp_all add: ci_go_def ci_hold_def ci_again_def)
  have z: "last_addr ci_reset = 0" by (simp add: ci_reset_def)
  show ?thesis
    using circular_incrementer_wraps [of 3 4 ci_reset "[ci_go 3, ci_go 3]" "ci_go 3" True]
      circular_incrementer_wraps [of 3 4 ci_reset "[ci_go 3]" "ci_go 3" True]
      circular_incrementer_wraps [of 3 4 ci_reset "[]" "ci_go 3" True]
      circular_incrementer_wraps [of 3 4 ci_reset "[ci_go 3]" "ci_go 3" False]
      circular_incrementer_wraps [of 3 4 ci_reset "[]" "ci_go 3" False]
      circular_incrementer_wraps [of 3 4 ci_reset "[ci_go 3]" "ci_again 3" True]
      circular_incrementer_wraps [of 3 4 ci_reset "[ci_go 3]" "ci_hold 3" True]
      circular_incrementer_wraps [of 5 5 ci_reset "[]" "ci_go 5" True]
      circular_incrementer_wraps [of 5 5 ci_reset "[ci_go 5]" "ci_go 5" True]
      circular_incrementer_wraps [of 5 5 ci_reset "[ci_go 5, ci_go 5]" "ci_go 5" True]
      circular_incrementer_wraps [of 5 5 ci_reset "[ci_go 5, ci_go 5, ci_go 5]" "ci_go 5" True]
      circular_incrementer_wraps [of 5 5 ci_reset "[ci_go 5, ci_go 5, ci_go 5, ci_go 5]" "ci_go 5" True]
      circular_incrementer_wraps [of 1 1 ci_reset "[]" "ci_go 1" True]
      circular_incrementer_wraps [of 1 1 ci_reset "[ci_go 1]" "ci_go 1" True]
    by (simp add: v w z ci_step_def)
qed

section \<open>Properties of the StoreSetter\<close>

lemma ss_in_range:
  assumes "num_memories c = 2 ^ num_memories_bits c" "ss_count s < ss_depth c * num_memories c"
  shows "ss_count s div 2 ^ num_memories_bits c < 2 ^ w_addr_width c"
    and "ss_count s + 1 < 2 ^ count_width c"
proof -
  let ?N = "num_memories c"
  have d: "0 < ss_depth c" using assms(2) by (cases "ss_depth c") simp_all
  have "ss_count s div ?N < ss_depth c"
    using assms(2) by (simp add: less_mult_imp_div_less)
  also have "ss_depth c \<le> 2 ^ w_addr_width c"
    using range_width_bound [OF d] by (simp add: w_addr_width_def)
  finally show "ss_count s div 2 ^ num_memories_bits c < 2 ^ w_addr_width c"
    using assms(1) by simp
  have "ss_depth c * ?N + 1 \<le> 2 ^ count_width c"
    using range_width_bound [of "ss_depth c * ?N + 1"] by (simp add: count_width_def)
  with assms(2) show "ss_count s + 1 < 2 ^ count_width c" by linarith
qed

lemma ss_w_en_bank:
  assumes "num_memories c = 2 ^ num_memories_bits c" "ss_start i" "\<not> ss_restart i"
  shows "ss_w_en c s i k = (k = ss_count s mod num_memories c)"
proof -
  have "ss_count s mod num_memories c < num_memories c"
    using assms(1) by simp
  then have "min (ss_count s mod num_memories c) (num_memories c - 1) = ss_count s mod num_memories c"
    by simp
  then have "array_index (num_memories c) (ss_count s mod 2 ^ num_memories_bits c) =
      ss_count s mod num_memories c"
    using assms(1) by (simp add: array_index_def)
  moreover have "ss_count s mod num_memories c < num_memories c"
    using assms(1) by simp
  ultimately show ?thesis
    using assms(2,3) by (auto simp: ss_w_en_def)
qed

lemma list_ex_upt: "list_ex P [0..<n] = (\<exists>k<n. P k)"
  by (auto simp: list_ex_iff)

lemma ss_updated_write:
  assumes "num_memories c = 2 ^ num_memories_bits c" "ss_start i" "\<not> ss_restart i"
  shows "ss_updated c s i"
proof -
  have "ss_count s mod num_memories c < num_memories c" using assms(1) by simp
  moreover have "ss_w_en c s i (ss_count s mod num_memories c)"
    using ss_w_en_bank [OF assms] by simp
  ultimately show ?thesis unfolding ss_updated_def list_ex_upt by blast
qed

text \<open>
  C7. With the number of memories \<open>N\<close> a power of two (the constructor asserts it): on an
  accepted write (start without restart) the write enable of bank \<open>count mod N\<close> and of no
  other bank is raised, the word address is \<open>count div N\<close> (as far as the address signal
  is wide), the data is the incoming word, which the memory then holds at that place,
  the count is incremented by one (as far as the count register is wide) and
  \<open>updated\<close> is raised; while the store has room (\<open>count < depth * N\<close>) no truncation
  occurs. With restart the count is 0 at the next edge, \<open>updated\<close> is raised, no bank is
  enabled and the memories are unchanged, whether or not start is asserted.
\<close>

theorem store_setter_write:
  assumes "num_memories c = 2 ^ num_memories_bits c"
  shows "(ss_start i \<and> \<not> ss_restart i \<longrightarrow>
            (\<forall>k. ss_w_en c s i k = (k = ss_count s mod num_memories c)) \<and>
            ss_w_addr c s = (ss_count s div num_memories c) mod 2 ^ w_addr_width c \<and>
            ss_w_data i = ss_in0 i \<and>
            ss_mem_step c m s i (ss_count s mod num_memories c) (ss_w_addr c s) = ss_in0 i \<and>
            ss_count (ss_step c s i) = (ss_count s + 1) mod 2 ^ count_width c \<and>
            ss_updated c s i \<and>
            (ss_count s < ss_depth c * num_memories c \<longrightarrow>
               ss_w_addr c s = ss_count s div num_memories c \<and>
               ss_count (ss_step c s i) = ss_count s + 1)) \<and>
         (ss_restart i \<longrightarrow>
            ss_count (ss_step c s i) = 0 \<and> ss_updated c s i \<and>
            (\<forall>k. \<not> ss_w_en c s i k) \<and> ss_mem_step c m s i = m)"
proof -
  have w: "ss_start i \<and> \<not> ss_restart i \<Longrightarrow> ss_w_en c s i k = (k = ss_count s mod num_memories c)" for k
    using ss_w_en_bank [OF assms] by simp
  have a: "ss_w_addr c s = (ss_count s div num_memories c) mod 2 ^ w_addr_width c"
    using assms by (simp add: ss_w_addr_def)
  have r: "ss_count s < ss_depth c * num_memories c \<Longrightarrow>
             ss_w_addr c s = ss_count s div num_memories c \<and>
             (ss_count s + 1) mod 2 ^ count_width c = ss_count s + 1"
    using ss_in_range [OF assms, of s] assms by (simp add: ss_w_addr_def)
  have u: "ss_start i \<and> \<not> ss_restart i \<Longrightarrow> ss_updated c s i"
    using ss_updated_write [OF assms] by simp
  have wr: "ss_start i \<and> \<not> ss_restart i \<Longrightarrow>
      (\<forall>k. ss_w_en c s i k = (k = ss_count s mod num_memories c)) \<and>
      ss_w_data i = ss_in0 i \<and>
      ss_mem_step c m s i (ss_count s mod num_memories c) (ss_w_addr c s) = ss_in0 i \<and>
      ss_count (ss_step c s i) = (ss_count s + 1) mod 2 ^ count_width c"
    using w by (simp add: ss_mem_step_def ss_w_data_def ss_step_def)
  have rs: "ss_restart i \<Longrightarrow> ss_count (ss_step c s i) = 0 \<and> ss_updated c s i \<and>
            (\<forall>k. \<not> ss_w_en c s i k) \<and> ss_mem_step c m s i = m"
    by (simp add: ss_step_def ss_updated_def ss_w_en_def ss_mem_step_def)
  show ?thesis
    using wr a r u rs by (simp add: ss_step_def)
qed

theorem store_setter_write_witness:
  "ss_w_en ss_cfg4 ss_at6 ss_write 2 \<and> \<not> ss_w_en ss_cfg4 ss_at6 ss_write 3 \<and>
   ss_w_addr ss_cfg4 ss_at6 = 1 \<and>
   ss_mem_step ss_cfg4 zero_banks ss_at6 ss_write 2 1 = 7 \<and>
   ss_count (ss_step ss_cfg4 ss_at6 ss_write) = 7 \<and>
   ss_updated ss_cfg4 ss_at6 ss_write \<and>
   ss_count (ss_step ss_cfg4 ss_at6 ss_restart_write) = 0 \<and>
   ss_mem_step ss_cfg4 zero_banks ss_at6 ss_restart_write = zero_banks"
proof -
  have bl: "bit_length 3 = 2"
    by code_simp
  have c: "num_memories ss_cfg4 = 2 ^ num_memories_bits ss_cfg4"
    by (simp add: ss_cfg4_def num_memories_bits_def bl)
  have v: "ss_start ss_write" "\<not> ss_restart ss_write" "ss_restart ss_restart_write"
    "ss_in0 ss_write = 7" "ss_count ss_at6 = 6" "num_memories ss_cfg4 = 4" "ss_depth ss_cfg4 = 8"
    by (simp_all add: ss_write_def ss_restart_write_def ss_at6_def ss_cfg4_def)
  show ?thesis
    using store_setter_write [OF c, of ss_write ss_at6 zero_banks]
      store_setter_write [OF c, of ss_restart_write ss_at6 zero_banks]
    by (auto simp: v)
qed

section \<open>Properties of the FilterValueFetcher\<close>

lemma mod4_cases: "(r::nat) mod 4 = 0 \<or> r mod 4 = 1 \<or> r mod 4 = 2 \<or> r mod 4 = 3"
  by arith

lemma array_index_4: "k < 4 \<Longrightarrow> array_index 4 k = k"
  by (simp add: array_index_def)

lemma smr_next_depthwise:
  assumes "fvf_next i" "\<not> fvf_restart i" "fvf_switch_PorD i"
  shows "smr_next s i n =
     (n = fvf_r_addr s mod 4 \<or> n = (fvf_r_addr s + 1) mod 4 \<or> n = (fvf_r_addr s + 2) mod 4)"
proof -
  have lt: "fvf_r_addr s mod 4 < 4" "(fvf_r_addr s + 1) mod 4 < 4" "(fvf_r_addr s + 2) mod 4 < 4"
    by simp_all
  show ?thesis
    using assms lt by (auto simp: smr_next_def array_index_4 simp del: mod_less_divisor)
qed

lemma smr_next_pointwise:
  assumes "fvf_next i" "\<not> fvf_restart i" "\<not> fvf_switch_PorD i"
  shows "smr_next s i n =
     (n = fvf_r_addr s mod 4 \<or> n = min (fvf_r_addr s mod 4 + 1) 3)"
proof -
  have lt: "fvf_r_addr s mod 4 < 4" by simp
  show ?thesis
    using assms lt by (auto simp: smr_next_def array_index_def simp del: mod_less_divisor)
qed

lemma smr_next_pointwise_even:
  assumes "fvf_next i" "\<not> fvf_restart i" "\<not> fvf_switch_PorD i" "even (fvf_r_addr s)"
  shows "smr_next s i n = (n = fvf_r_addr s mod 4 \<or> n = (fvf_r_addr s + 1) mod 4)"
proof -
  have "fvf_r_addr s mod 4 = 0 \<or> fvf_r_addr s mod 4 = 2"
    using assms(4) by presburger
  then have "min (fvf_r_addr s mod 4 + 1) 3 = (fvf_r_addr s + 1) mod 4"
    by presburger
  then show ?thesis
    using smr_next_pointwise [OF assms(1-3), of s n] by simp
qed

lemma even_add2_mod: "even (r::nat) \<Longrightarrow> even ((r + 2) mod 2 ^ w)"
proof (cases w)
  case 0
  then show ?thesis by simp
next
  case (Suc v)
  assume "even r"
  moreover have "(2::nat) dvd 2 ^ w" using Suc by simp
  ultimately show ?thesis by (simp add: dvd_mod_iff)
qed

text \<open>In pointwise mode the read position stays even from a restart on.\<close>

lemma fvf_pointwise_even:
  "even (fvf_r_addr s) \<Longrightarrow> \<forall>j \<in> set js. \<not> fvf_switch_PorD j \<Longrightarrow>
     even (fvf_r_addr (fvf_run md s js))"
proof (induction js arbitrary: s)
  case Nil
  then show ?case by simp
next
  case (Cons j js)
  have "even (fvf_r_addr (fvf_step md s j))"
    using Cons.prems even_add2_mod [of "fvf_r_addr s" "fvf_width md"]
    by (simp add: fvf_step_def)
  with Cons show ?case by simp
qed

text \<open>
  C8 fails on the code at a read position with \<open>r_addr mod 4 = 3\<close> in pointwise mode.
  One depthwise next pulse from reset leaves \<open>r_addr = 3\<close>; a pointwise next pulse then
  asserts next on reader 3 only, and not on reader 0, the reader at position
  \<open>r_addr + 1\<close>: the index \<open>r_addr[:2] + 1 = 4\<close> is past the end of the array of four and
  selects its last element again. (The depthwise branch, and the gathering of the data
  in both modes, index with \<open>(r_addr + 1)[:2]\<close>, which wraps to 0.)
\<close>

theorem fetcher_pair_counterexample:
  "fvf_r_addr (fvf_run 8 fvf_reset [fvf_next_in True 9]) = 3 \<and>
   smr_next (fvf_run 8 fvf_reset [fvf_next_in True 9]) (fvf_next_in False 8) 3 \<and>
   \<not> smr_next (fvf_run 8 fvf_reset [fvf_next_in True 9]) (fvf_next_in False 8) 0 \<and>
   \<not> smr_next (fvf_run 8 fvf_reset [fvf_next_in True 9]) (fvf_next_in False 8) 1 \<and>
   \<not> smr_next (fvf_run 8 fvf_reset [fvf_next_in True 9]) (fvf_next_in False 8) 2 \<and>
   (fvf_r_addr (fvf_run 8 fvf_reset [fvf_next_in True 9]) + 1) mod 4 = 0"
proof -
  have bl: "bit_length 31 = 5" by code_simp
  have w: "fvf_width 8 = 5" by (simp add: fvf_width_def range_width_def bl)
  have r: "fvf_run 8 fvf_reset [fvf_next_in True 9] = fvf_at 3"
    by (simp add: fvf_step_def fvf_reset_def fvf_next_in_def fvf_at_def w)
  show ?thesis
    unfolding r by (simp add: smr_next_def fvf_at_def fvf_next_in_def array_index_def)
qed

text \<open>
  C8, what the code does. Restart has priority: it resets the read position and no reader
  gets next. On a next pulse without restart: in pointwise mode the read position
  becomes 0 when it equals \<open>limit - 2\<close> and otherwise advances by 2 (as far as the
  register is wide; exactly by 2 while \<open>r_addr + 2 \<le> limit\<close>), and next is asserted on
  the readers \<open>r_addr mod 4\<close> and \<open>min (r_addr mod 4 + 1) 3\<close>: the two readers
  \<open>r_addr mod 4\<close> and \<open>(r_addr + 1) mod 4\<close> unless \<open>r_addr mod 4 = 3\<close>, and reader 3 alone
  then; in depthwise mode the position becomes 0 when it equals \<open>limit - 3\<close> and otherwise
  advances by 3, and next is asserted on exactly the three readers \<open>r_addr mod 4\<close>,
  \<open>(r_addr + 1) mod 4\<close> and \<open>(r_addr + 2) mod 4\<close>. Without next and restart the position
  holds and no reader gets next.
\<close>

theorem fetcher_advance:
  "(fvf_restart i \<longrightarrow>
      fvf_r_addr (fvf_step md s i) = 0 \<and> (\<forall>n. \<not> smr_next s i n)) \<and>
   (\<not> fvf_restart i \<and> \<not> fvf_next i \<longrightarrow>
      fvf_r_addr (fvf_step md s i) = fvf_r_addr s \<and> (\<forall>n. \<not> smr_next s i n)) \<and>
   (\<not> fvf_restart i \<and> fvf_next i \<and> \<not> fvf_switch_PorD i \<longrightarrow>
      fvf_r_addr (fvf_step md s i) =
        (if int (fvf_r_addr s) = int (fvf_limit i) - 2 then 0
         else (fvf_r_addr s + 2) mod 2 ^ fvf_width md) \<and>
      (fvf_r_addr s + 2 \<le> fvf_limit i \<and> fvf_limit i < 2 ^ fvf_width md \<longrightarrow>
         fvf_r_addr (fvf_step md s i) =
           (if fvf_r_addr s + 2 = fvf_limit i then 0 else fvf_r_addr s + 2)) \<and>
      (\<forall>n. smr_next s i n =
         (n = fvf_r_addr s mod 4 \<or> n = min (fvf_r_addr s mod 4 + 1) 3)) \<and>
      (fvf_r_addr s mod 4 \<noteq> 3 \<longrightarrow>
         (\<forall>n. smr_next s i n =
            (n = fvf_r_addr s mod 4 \<or> n = (fvf_r_addr s + 1) mod 4))) \<and>
      (fvf_r_addr s mod 4 = 3 \<longrightarrow> (\<forall>n. smr_next s i n = (n = 3)))) \<and>
   (\<not> fvf_restart i \<and> fvf_next i \<and> fvf_switch_PorD i \<longrightarrow>
      fvf_r_addr (fvf_step md s i) =
        (if int (fvf_r_addr s) = int (fvf_limit i) - 3 then 0
         else (fvf_r_addr s + 3) mod 2 ^ fvf_width md) \<and>
      (fvf_r_addr s + 3 \<le> fvf_limit i \<and> fvf_limit i < 2 ^ fvf_width md \<longrightarrow>
         fvf_r_addr (fvf_step md s i) =
           (if fvf_r_addr s + 3 = fvf_limit i then 0 else fvf_r_addr s + 3)) \<and>
      (\<forall>n. smr_next s i n =
         (n = fvf_r_addr s mod 4 \<or> n = (fvf_r_addr s + 1) mod 4 \<or>
          n = (fvf_r_addr s + 2) mod 4)))"
proof -
  have R: "fvf_restart i \<longrightarrow>
      fvf_r_addr (fvf_step md s i) = 0 \<and> (\<forall>n. \<not> smr_next s i n)"
    by (simp add: fvf_step_def smr_next_def)
  have H: "\<not> fvf_restart i \<and> \<not> fvf_next i \<longrightarrow>
      fvf_r_addr (fvf_step md s i) = fvf_r_addr s \<and> (\<forall>n. \<not> smr_next s i n)"
    by (simp add: fvf_step_def smr_next_def)
  have a2: "fvf_r_addr s + 2 \<le> fvf_limit i \<and> fvf_limit i < 2 ^ fvf_width md \<longrightarrow>
      (if int (fvf_r_addr s) = int (fvf_limit i) - 2 then 0
       else (fvf_r_addr s + 2) mod 2 ^ fvf_width md) =
      (if fvf_r_addr s + 2 = fvf_limit i then 0 else fvf_r_addr s + 2)"
    by auto
  have a3: "fvf_r_addr s + 3 \<le> fvf_limit i \<and> fvf_limit i < 2 ^ fvf_width md \<longrightarrow>
      (if int (fvf_r_addr s) = int (fvf_limit i) - 3 then 0
       else (fvf_r_addr s + 3) mod 2 ^ fvf_width md) =
      (if fvf_r_addr s + 3 = fvf_limit i then 0 else fvf_r_addr s + 3)"
    by auto
  have m3: "fvf_r_addr s mod 4 \<noteq> 3 \<Longrightarrow>
      min (fvf_r_addr s mod 4 + 1) 3 = (fvf_r_addr s + 1) mod 4"
    by presburger
  have P: "\<not> fvf_restart i \<and> fvf_next i \<and> \<not> fvf_switch_PorD i \<longrightarrow>
      fvf_r_addr (fvf_step md s i) =
        (if int (fvf_r_addr s) = int (fvf_limit i) - 2 then 0
         else (fvf_r_addr s + 2) mod 2 ^ fvf_width md) \<and>
      (fvf_r_addr s + 2 \<le> fvf_limit i \<and> fvf_limit i < 2 ^ fvf_width md \<longrightarrow>
         fvf_r_addr (fvf_step md s i) =
           (if fvf_r_addr s + 2 = fvf_limit i then 0 else fvf_r_addr s + 2)) \<and>
      (\<forall>n. smr_next s i n =
         (n = fvf_r_addr s mod 4 \<or> n = min (fvf_r_addr s mod 4 + 1) 3)) \<and>
      (fvf_r_addr s mod 4 \<noteq> 3 \<longrightarrow>
         (\<forall>n. smr_next s i n =
            (n = fvf_r_addr s mod 4 \<or> n = (fvf_r_addr s + 1) mod 4))) \<and>
      (fvf_r_addr s mod 4 = 3 \<longrightarrow> (\<forall>n. smr_next s i n = (n = 3)))"
  proof
    assume h: "\<not> fvf_restart i \<and> fvf_next i \<and> \<not> fvf_switch_PorD i"
    then have st: "fvf_r_addr (fvf_step md s i) =
        (if int (fvf_r_addr s) = int (fvf_limit i) - 2 then 0
         else (fvf_r_addr s + 2) mod 2 ^ fvf_width md)"
      by (simp add: fvf_step_def)
    have n: "smr_next s i n =
        (n = fvf_r_addr s mod 4 \<or> n = min (fvf_r_addr s mod 4 + 1) 3)" for n
      using h smr_next_pointwise [of i s n] by simp
    have n1: "fvf_r_addr s mod 4 \<noteq> 3 \<longrightarrow>
         (\<forall>n. smr_next s i n =
            (n = fvf_r_addr s mod 4 \<or> n = (fvf_r_addr s + 1) mod 4))"
      using n m3 by simp
    have n2: "fvf_r_addr s mod 4 = 3 \<longrightarrow> (\<forall>n. smr_next s i n = (n = 3))"
      using n by auto
    from st a2 n n1 n2 show "fvf_r_addr (fvf_step md s i) =
        (if int (fvf_r_addr s) = int (fvf_limit i) - 2 then 0
         else (fvf_r_addr s + 2) mod 2 ^ fvf_width md) \<and>
      (fvf_r_addr s + 2 \<le> fvf_limit i \<and> fvf_limit i < 2 ^ fvf_width md \<longrightarrow>
         fvf_r_addr (fvf_step md s i) =
           (if fvf_r_addr s + 2 = fvf_limit i then 0 else fvf_r_addr s + 2)) \<and>
      (\<forall>n. smr_next s i n =
         (n = fvf_r_addr s mod 4 \<or> n = min (fvf_r_addr s mod 4 + 1) 3)) \<and>
      (fvf_r_addr s mod 4 \<noteq> 3 \<longrightarrow>
         (\<forall>n. smr_next s i n =
            (n = fvf_r_addr s mod 4 \<or> n = (fvf_r_addr s + 1) mod 4))) \<and>
      (fvf_r_addr s mod 4 = 3 \<longrightarrow> (\<forall>n. smr_next s i n = (n = 3)))"
      by (simp only: simp_thms)
  qed
  have D: "\<not> fvf_restart i \<and> fvf_next i \<and> fvf_switch_PorD i \<longrightarrow>
      fvf_r_addr (fvf_step md s i) =
        (if int (fvf_r_addr s) = int (fvf_limit i) - 3 then 0
         else (fvf_r_addr s + 3) mod 2 ^ fvf_width md) \<and>
      (fvf_r_addr s + 3 \<le> fvf_limit i \<and> fvf_limit i < 2 ^ fvf_width md \<longrightarrow>
         fvf_r_addr (fvf_step md s i) =
           (if fvf_r_addr s + 3 = fvf_limit i then 0 else fvf_r_addr s + 3)) \<and>
      (\<forall>n. smr_next s i n =
         (n = fvf_r_addr s mod 4 \<or> n = (fvf_r_addr s + 1) mod 4 \<or>
          n = (fvf_r_addr s + 2) mod 4))"
  proof
    assume h: "\<not> fvf_restart i \<and> fvf_next i \<and> fvf_switch_PorD i"
    then have st: "fvf_r_addr (fvf_step md s i) =
        (if int (fvf_r_addr s) = int (fvf_limit i) - 3 then 0
         else (fvf_r_addr s + 3) mod 2 ^ fvf_width md)"
      by (simp add: fvf_step_def)
    have n: "\<forall>n. smr_next s i n =
        (n = fvf_r_addr s mod 4 \<or> n = (fvf_r_addr s + 1) mod 4 \<or>
         n = (fvf_r_addr s + 2) mod 4)"
      using h smr_next_depthwise [of i s] by simp
    from st a3 n show "fvf_r_addr (fvf_step md s i) =
        (if int (fvf_r_addr s) = int (fvf_limit i) - 3 then 0
         else (fvf_r_addr s + 3) mod 2 ^ fvf_width md) \<and>
      (fvf_r_addr s + 3 \<le> fvf_limit i \<and> fvf_limit i < 2 ^ fvf_width md \<longrightarrow>
         fvf_r_addr (fvf_step md s i) =
           (if fvf_r_addr s + 3 = fvf_limit i then 0 else fvf_r_addr s + 3)) \<and>
      (\<forall>n. smr_next s i n =
         (n = fvf_r_addr s mod 4 \<or> n = (fvf_r_addr s + 1) mod 4 \<or>
          n = (fvf_r_addr s + 2) mod 4))"
      by (simp only: simp_thms)
  qed
  from R H P D show ?thesis by (simp only: simp_thms)
qed

theorem fetcher_advance_witness:
  "fvf_r_addr (fvf_step 8 (fvf_at 2) (fvf_next_in False 8)) = 4 \<and>
   fvf_r_addr (fvf_step 8 (fvf_at 6) (fvf_next_in False 8)) = 0 \<and>
   smr_next (fvf_at 2) (fvf_next_in False 8) 2 \<and>
   smr_next (fvf_at 2) (fvf_next_in False 8) 3 \<and>
   \<not> smr_next (fvf_at 2) (fvf_next_in False 8) 0 \<and>
   smr_next (fvf_at 3) (fvf_next_in False 8) 3 \<and>
   \<not> smr_next (fvf_at 3) (fvf_next_in False 8) 0 \<and>
   fvf_r_addr (fvf_step 8 (fvf_at 3) (fvf_next_in False 8)) = 5 \<and>
   fvf_r_addr (fvf_step 8 (fvf_at 3) (fvf_next_in True 9)) = 6 \<and>
   fvf_r_addr (fvf_step 8 (fvf_at 6) (fvf_next_in True 9)) = 0 \<and>
   smr_next (fvf_at 3) (fvf_next_in True 9) 3 \<and>
   smr_next (fvf_at 3) (fvf_next_in True 9) 0 \<and>
   smr_next (fvf_at 3) (fvf_next_in True 9) 1 \<and>
   \<not> smr_next (fvf_at 3) (fvf_next_in True 9) 2 \<and>
   fvf_r_addr (fvf_step 8 (fvf_at 6) fvf_restart_in) = 0 \<and>
   \<not> smr_next (fvf_at 6) fvf_restart_in 2"
proof -
  have bl: "bit_length 31 = 5" by code_simp
  have w: "fvf_width 8 = 5" by (simp add: fvf_width_def range_width_def bl)
  have v: "fvf_next (fvf_next_in d l)" "\<not> fvf_restart (fvf_next_in d l)"
    "fvf_switch_PorD (fvf_next_in d l) = d" "fvf_limit (fvf_next_in d l) = l"
    "fvf_r_addr (fvf_at r) = r" "fvf_restart fvf_restart_in" for d l r
    by (simp_all add: fvf_next_in_def fvf_at_def fvf_restart_in_def)
  show ?thesis
    using fetcher_advance [of "fvf_next_in False 8" 8 "fvf_at 2"]
      fetcher_advance [of "fvf_next_in False 8" 8 "fvf_at 6"]
      fetcher_advance [of "fvf_next_in False 8" 8 "fvf_at 3"]
      fetcher_advance [of "fvf_next_in True 9" 8 "fvf_at 3"]
      fetcher_advance [of "fvf_next_in True 9" 8 "fvf_at 6"]
      fetcher_advance [of fvf_restart_in 8 "fvf_at 6"]
    by (simp add: v w)
qed

section \<open>Properties of the InputStore\<close>

lemma ins_step_fields:
  "r_full (ins_step md s i) b = r_full_next s i b"
  "w_curr_buf (ins_step md s i) =
     (if ins_restart i then False else if w_last s i then \<not> w_curr_buf s else w_curr_buf s)"
  "r_curr_buf (ins_step md s i) =
     (if ins_restart i then False else if r_finished i then \<not> r_curr_buf s else r_curr_buf s)"
  "r_ready (ins_step md s i) =
     (if ins_restart i \<or> r_finished i then False
      else if rising_full s then True else r_ready s)"
  "ins_mem (ins_step md s i) = ins_mem_next s i"
  by (simp_all add: ins_step_def r_full_def)

lemma ready_full_step:
  assumes "r_ready s \<longrightarrow> full s"
  shows "r_ready (ins_step md s i) \<longrightarrow> full (ins_step md s i)"
proof
  assume r: "r_ready (ins_step md s i)"
  then have n: "\<not> ins_restart i" "\<not> r_finished i" and c: "rising_full s \<or> r_ready s"
    by (auto simp: ins_step_fields split: if_splits)
  from c assms have f: "r_full s (r_curr_buf s)"
    by (auto simp: rising_full_def full_def)
  have "r_curr_buf (ins_step md s i) = r_curr_buf s"
    using n by (simp add: ins_step_fields)
  moreover have "r_full_next s i (r_curr_buf s)"
    using n f by (simp add: r_full_next_def)
  ultimately show "full (ins_step md s i)"
    by (simp add: full_def ins_step_fields)
qed

lemma ready_full_run:
  "r_ready s \<longrightarrow> full s \<Longrightarrow> r_ready (ins_run md s js) \<longrightarrow> full (ins_run md s js)"
proof (induction js arbitrary: s)
  case Nil
  then show ?case by simp
next
  case (Cons j js)
  from ready_full_step [OF Cons.prems] Cons.IH show ?case by simp
qed

lemma ready_full_reachable:
  "r_ready (ins_run md ins_reset js) \<longrightarrow> full (ins_run md ins_reset js)"
  by (rule ready_full_run) (simp add: ins_reset_def)

lemma not_writable_readable:
  "r_ready s \<longrightarrow> full s \<Longrightarrow> \<not> (writable s b \<and> readable s b)"
  by (cases "r_curr_buf s"; cases "w_curr_buf s")
     (auto simp: writable_def readable_def w_ready_def full_def)

lemma mem_change_only_writable:
  "ins_mem (ins_step md s i) n b a \<noteq> ins_mem s n b a \<Longrightarrow> ins_w_en i \<and> writable s b"
  by (auto simp: ins_step_fields ins_mem_next_def w_accept_def writable_def split: if_splits)

lemma full_buffer_frozen:
  "r_full s b \<Longrightarrow> ins_mem (ins_step md s i) n b a = ins_mem s n b a"
  by (auto simp: ins_step_fields ins_mem_next_def w_accept_def w_ready_def)

lemma selector_toggles:
  "\<not> ins_restart i \<Longrightarrow> (w_curr_buf (ins_step md s i) \<noteq> w_curr_buf s) = w_last s i"
  by (simp add: ins_step_fields)

lemma last_write_marks_full:
  assumes "r_ready s \<longrightarrow> full s" "w_last s i" "r_finished i \<longrightarrow> r_ready s"
  shows "r_full (ins_step md s i) (w_curr_buf s)"
proof -
  have nf: "\<not> r_full s (w_curr_buf s)"
    using assms(2) by (simp add: w_last_def w_accept_def w_ready_def)
  have "r_finished i \<Longrightarrow> r_curr_buf s \<noteq> w_curr_buf s"
    using assms(1,3) nf by (cases "r_curr_buf s"; cases "w_curr_buf s") (auto simp: full_def)
  then show ?thesis
    using assms(2) by (auto simp: ins_step_fields r_full_next_def)
qed

lemma full_rises_only_by_last_write:
  "\<not> r_full s b \<Longrightarrow> r_full (ins_step md s i) b \<Longrightarrow> w_last s i \<and> w_curr_buf s = b"
  by (auto simp: ins_step_fields r_full_next_def split: if_splits)

lemma full_falls_only_by_finish:
  "r_full s b \<Longrightarrow> \<not> r_full (ins_step md s i) b \<Longrightarrow>
     (r_finished i \<and> r_curr_buf s = b) \<or> ins_restart i"
  by (auto simp: ins_step_fields r_full_next_def split: if_splits)

lemma full_mark_exact:
  "w_last s i \<Longrightarrow>
     r_full (ins_step md s i) (w_curr_buf s) = (\<not> (r_finished i \<and> r_curr_buf s = w_curr_buf s))"
  by (auto simp: ins_step_fields r_full_next_def)

lemma ins_step_w_addr:
  "ins_w_addr (ins_step md s i) =
     (if ins_restart i then 0
      else if w_accept s i then
        (if w_last s i then 0 else (ins_w_addr s + 1) mod 2 ^ ins_width md)
      else ins_w_addr s)"
  by (simp add: ins_step_def)

lemma w_addr_counts:
  "(\<not> ins_restart i \<and> w_accept s i \<and> \<not> w_last s i \<longrightarrow>
      ins_w_addr (ins_step md s i) = (ins_w_addr s + 1) mod 2 ^ ins_width md) \<and>
   (w_last s i \<or> ins_restart i \<longrightarrow> ins_w_addr (ins_step md s i) = 0) \<and>
   (\<not> ins_restart i \<and> \<not> w_accept s i \<longrightarrow> ins_w_addr (ins_step md s i) = ins_w_addr s)"
  by (auto simp: ins_step_w_addr w_last_def)

lemma written_cell:
  "w_accept s i \<Longrightarrow>
     ins_mem (ins_step md s i) (ins_w_addr s mod 4) (w_curr_buf s) (ins_w_addr s div 4) =
       ins_w_data i"
  by (simp add: ins_step_fields ins_mem_next_def)

text \<open>Filling a buffer: from a state at write address \<open>a\<close> whose write buffer is not full,
  \<open>n\<close> cycles with \<open>w_en\<close> and no restart, \<open>a + n\<close> being below the words of a pixel, are
  \<open>n\<close> accepted writes: they leave the write address at \<open>a + n\<close>, the selector where it
  was and the buffer not full, whatever the reader does.\<close>

lemma fill_run:
  "ins_w_addr s = a \<Longrightarrow> w_ready s \<Longrightarrow>
     \<forall>j \<in> set ws. ins_w_en j \<and> input_depth j = d \<and> \<not> ins_restart j \<Longrightarrow>
     a + length ws < d \<Longrightarrow> d \<le> 2 ^ ins_width md \<Longrightarrow>
     ins_w_addr (ins_run md s ws) = a + length ws \<and>
     w_curr_buf (ins_run md s ws) = w_curr_buf s \<and>
     w_ready (ins_run md s ws)"
proof (induction ws arbitrary: s a)
  case Nil
  then show ?case by simp
next
  case (Cons j ws)
  have j: "ins_w_en j" "input_depth j = d" "\<not> ins_restart j"
    using Cons.prems(3) by simp_all
  have acc: "w_accept s j" using j(1) Cons.prems(2) by (simp add: w_accept_def)
  have nl: "\<not> w_last s j"
    using Cons.prems(1,4) j(2) by (simp add: w_last_def)
  have "a + 1 < 2 ^ ins_width md" using Cons.prems(4,5) by simp
  then have a1: "ins_w_addr (ins_step md s j) = a + 1"
    using acc nl j(3) Cons.prems(1) by (simp add: ins_step_w_addr)
  have c1: "w_curr_buf (ins_step md s j) = w_curr_buf s"
    using nl j(3) by (simp add: ins_step_fields)
  have "\<not> r_full_next s j (w_curr_buf s)"
    using nl j(3) Cons.prems(2) by (simp add: r_full_next_def w_ready_def)
  then have "\<not> r_full (ins_step md s j) (w_curr_buf s)"
    by (simp only: ins_step_fields(1) simp_thms)
  then have r1: "w_ready (ins_step md s j)"
    by (simp only: w_ready_def c1 simp_thms)
  have "ins_w_addr (ins_run md (ins_step md s j) ws) = (a + 1) + length ws \<and>
     w_curr_buf (ins_run md (ins_step md s j) ws) = w_curr_buf (ins_step md s j) \<and>
     w_ready (ins_run md (ins_step md s j) ws)"
    using Cons.prems(3,4,5) by (intro Cons.IH [OF a1 r1]) simp_all
  then show ?case by (simp add: c1)
qed

text \<open>
  C5 as stated fails: the write that completes a pixel does not always mark its buffer
  full. From reset, a cycle that writes the only word of a one-word pixel while
  \<open>r_finished\<close> is asserted (with \<open>r_ready\<close> low) is the completing write and toggles the
  write selector, but the full flag of the buffer written stays clear: the assignment
  that \<open>r_finished\<close> makes to \<open>r_full[r_curr_buf]\<close> comes later and wins.
\<close>

theorem input_store_full_mark_counterexample:
  "w_last ins_reset ins_write_finish \<and>
   \<not> w_curr_buf ins_reset \<and>
   w_curr_buf (ins_step 8 ins_reset ins_write_finish) \<and>
   \<not> r_full (ins_step 8 ins_reset ins_write_finish) False \<and>
   \<not> r_ready ins_reset"
  by (simp add: ins_step_def r_full_next_def w_last_def w_accept_def w_ready_def r_full_def
      ins_reset_def ins_write_finish_def)

text \<open>
  C5, amended. In every state reachable from reset, under any inputs: no buffer is
  offered to the writer and to the reader at once; the memories change only through an
  accepted write, in the writer's buffer, whose full flag is then clear, and an accepted
  write stores its word at the write address; a full buffer is never written, so while
  \<open>r_ready\<close> is high the buffer that all read addresses select keeps the contents it had
  when it was completed. The write address counts the accepted writes: it advances by one
  on each but the one at address \<open>input_depth - 1\<close>, which takes it back to 0, and holds
  otherwise (restart resets it); so from address 0 the write at address
  \<open>input_depth - 1\<close> is the one that completes \<open>input_depth\<close> words. The write selector
  toggles exactly on that write (restart, which resets the selector, aside), and that
  write marks its buffer full unless \<open>r_finished\<close> is asserted in the same cycle with the
  read selector on the same buffer, which does not happen when \<open>r_finished\<close> is only
  asserted with \<open>r_ready\<close>. A full flag rises by nothing else, and falls only by
  \<open>r_finished\<close> on that buffer or by restart.
\<close>

theorem input_store_double_buffering:
  assumes "s = ins_run md ins_reset js"
  shows "(\<forall>b. \<not> (writable s b \<and> readable s b)) \<and>
     (\<forall>n b a. ins_mem (ins_step md s i) n b a \<noteq> ins_mem s n b a \<longrightarrow>
        ins_w_en i \<and> writable s b) \<and>
     (\<forall>n b a. r_full s b \<longrightarrow> ins_mem (ins_step md s i) n b a = ins_mem s n b a) \<and>
     (r_ready s \<longrightarrow>
        (\<forall>n a. ins_mem (ins_step md s i) n (ins_read_buf s) a = ins_mem s n (ins_read_buf s) a)) \<and>
     (\<not> ins_restart i \<longrightarrow> (w_curr_buf (ins_step md s i) \<noteq> w_curr_buf s) = w_last s i) \<and>
     (w_last s i \<and> (r_finished i \<longrightarrow> r_ready s) \<longrightarrow> r_full (ins_step md s i) (w_curr_buf s)) \<and>
     (\<forall>b. \<not> r_full s b \<and> r_full (ins_step md s i) b \<longrightarrow> w_last s i \<and> w_curr_buf s = b) \<and>
     (\<forall>b. r_full s b \<and> \<not> r_full (ins_step md s i) b \<longrightarrow>
        (r_finished i \<and> r_curr_buf s = b) \<or> ins_restart i) \<and>
     (w_last s i \<longrightarrow>
        r_full (ins_step md s i) (w_curr_buf s) =
          (\<not> (r_finished i \<and> r_curr_buf s = w_curr_buf s))) \<and>
     (\<not> ins_restart i \<and> w_accept s i \<and> \<not> w_last s i \<longrightarrow>
        ins_w_addr (ins_step md s i) = (ins_w_addr s + 1) mod 2 ^ ins_width md) \<and>
     (w_last s i \<or> ins_restart i \<longrightarrow> ins_w_addr (ins_step md s i) = 0) \<and>
     (\<not> ins_restart i \<and> \<not> w_accept s i \<longrightarrow> ins_w_addr (ins_step md s i) = ins_w_addr s) \<and>
     (w_accept s i \<longrightarrow>
        ins_mem (ins_step md s i) (ins_w_addr s mod 4) (w_curr_buf s) (ins_w_addr s div 4) =
          ins_w_data i) \<and>
     (\<forall>(ws :: ins_in list) d. ins_w_addr s = 0 \<and> w_ready s \<and>
        (\<forall>j \<in> set ws. ins_w_en j \<and> input_depth j = d \<and> \<not> ins_restart j) \<and>
        length ws < d \<and> d \<le> 2 ^ ins_width md \<longrightarrow>
        ins_w_addr (ins_run md s ws) = length ws \<and>
        w_curr_buf (ins_run md s ws) = w_curr_buf s \<and>
        w_ready (ins_run md s ws))"
proof -
  have inv: "r_ready s \<longrightarrow> full s"
    unfolding assms by (rule ready_full_reachable)
  have c1: "\<forall>b. \<not> (writable s b \<and> readable s b)"
    using not_writable_readable [OF inv] by blast
  have c2: "\<forall>n b a. ins_mem (ins_step md s i) n b a \<noteq> ins_mem s n b a \<longrightarrow>
        ins_w_en i \<and> writable s b"
    using mem_change_only_writable by blast
  have c3: "\<forall>n b a. r_full s b \<longrightarrow> ins_mem (ins_step md s i) n b a = ins_mem s n b a"
    using full_buffer_frozen by blast
  have c4: "r_ready s \<longrightarrow>
        (\<forall>n a. ins_mem (ins_step md s i) n (ins_read_buf s) a = ins_mem s n (ins_read_buf s) a)"
    using inv full_buffer_frozen [of s "r_curr_buf s"] by (simp add: full_def ins_read_buf_def)
  have c5: "\<not> ins_restart i \<longrightarrow> (w_curr_buf (ins_step md s i) \<noteq> w_curr_buf s) = w_last s i"
    using selector_toggles by blast
  have c6: "w_last s i \<and> (r_finished i \<longrightarrow> r_ready s) \<longrightarrow> r_full (ins_step md s i) (w_curr_buf s)"
    using last_write_marks_full [OF inv] by blast
  have c7: "\<forall>b. \<not> r_full s b \<and> r_full (ins_step md s i) b \<longrightarrow> w_last s i \<and> w_curr_buf s = b"
    using full_rises_only_by_last_write by blast
  have c8: "\<forall>b. r_full s b \<and> \<not> r_full (ins_step md s i) b \<longrightarrow>
        (r_finished i \<and> r_curr_buf s = b) \<or> ins_restart i"
    using full_falls_only_by_finish by blast
  have c9: "w_last s i \<longrightarrow>
        r_full (ins_step md s i) (w_curr_buf s) =
          (\<not> (r_finished i \<and> r_curr_buf s = w_curr_buf s))"
    using full_mark_exact by blast
  have c10: "\<not> ins_restart i \<and> w_accept s i \<and> \<not> w_last s i \<longrightarrow>
        ins_w_addr (ins_step md s i) = (ins_w_addr s + 1) mod 2 ^ ins_width md"
    by (rule w_addr_counts [THEN conjunct1])
  have c10b: "w_last s i \<or> ins_restart i \<longrightarrow> ins_w_addr (ins_step md s i) = 0"
    by (rule w_addr_counts [THEN conjunct2, THEN conjunct1])
  have c10c: "\<not> ins_restart i \<and> \<not> w_accept s i \<longrightarrow>
        ins_w_addr (ins_step md s i) = ins_w_addr s"
    by (rule w_addr_counts [THEN conjunct2, THEN conjunct2])
  have c11: "w_accept s i \<longrightarrow>
        ins_mem (ins_step md s i) (ins_w_addr s mod 4) (w_curr_buf s) (ins_w_addr s div 4) =
          ins_w_data i"
    using written_cell by blast
  have c12: "\<forall>(ws :: ins_in list) d. ins_w_addr s = 0 \<and> w_ready s \<and>
        (\<forall>j \<in> set ws. ins_w_en j \<and> input_depth j = d \<and> \<not> ins_restart j) \<and>
        length ws < d \<and> d \<le> 2 ^ ins_width md \<longrightarrow>
        ins_w_addr (ins_run md s ws) = length ws \<and>
        w_curr_buf (ins_run md s ws) = w_curr_buf s \<and>
        w_ready (ins_run md s ws)"
  proof (intro allI impI)
    fix ws :: "ins_in list" and d
    assume h: "ins_w_addr s = 0 \<and> w_ready s \<and>
        (\<forall>j \<in> set ws. ins_w_en j \<and> input_depth j = d \<and> \<not> ins_restart j) \<and>
        length ws < d \<and> d \<le> 2 ^ ins_width md"
    then show "ins_w_addr (ins_run md s ws) = length ws \<and>
        w_curr_buf (ins_run md s ws) = w_curr_buf s \<and>
        w_ready (ins_run md s ws)"
      using fill_run [of s 0 ws d md] by simp
  qed
  show ?thesis
    by (intro conjI) (fact c1 c2 c3 c4 c5 c6 c7 c8 c9 c10 c10b c10c c11 c12)+
qed

lemma ins_after_word_idle:
  "r_full (ins_run 8 ins_reset [ins_cfg_word, ins_idle]) False"
  "\<not> r_full (ins_run 8 ins_reset [ins_cfg_word, ins_idle]) True"
  "w_curr_buf (ins_run 8 ins_reset [ins_cfg_word, ins_idle])"
  "\<not> r_curr_buf (ins_run 8 ins_reset [ins_cfg_word, ins_idle])"
  "r_ready (ins_run 8 ins_reset [ins_cfg_word, ins_idle])"
  "ins_w_addr (ins_run 8 ins_reset [ins_cfg_word, ins_idle]) = 0"
  "ins_mem (ins_run 8 ins_reset [ins_cfg_word, ins_idle]) 0 False 0 = 5"
  by (simp_all add: ins_step_def ins_reset_def ins_cfg_word_def ins_idle_def r_full_def
      r_full_next_def w_last_def w_accept_def w_ready_def rising_full_def full_def
      ins_mem_next_def)

theorem input_store_double_buffering_witness:
  "readable (ins_run 8 ins_reset [ins_cfg_word, ins_idle]) False \<and>
   \<not> writable (ins_run 8 ins_reset [ins_cfg_word, ins_idle]) False \<and>
   writable (ins_run 8 ins_reset [ins_cfg_word, ins_idle]) True \<and>
   w_last (ins_run 8 ins_reset [ins_cfg_word, ins_idle]) ins_cfg_word \<and>
   r_full (ins_step 8 (ins_run 8 ins_reset [ins_cfg_word, ins_idle]) ins_cfg_word) True \<and>
   \<not> w_curr_buf (ins_step 8 (ins_run 8 ins_reset [ins_cfg_word, ins_idle]) ins_cfg_word) \<and>
   ins_mem (ins_step 8 (ins_run 8 ins_reset [ins_cfg_word, ins_idle]) ins_cfg_word) 0 False 0 = 5 \<and>
   \<not> r_full (ins_step 8 (ins_run 8 ins_reset [ins_cfg_word, ins_idle]) ins_finish) False \<and>
   ins_w_addr (ins_run 8 ins_reset [ins_write_word 3 5, ins_write_word 3 6]) = 2 \<and>
   \<not> w_curr_buf (ins_run 8 ins_reset [ins_write_word 3 5, ins_write_word 3 6]) \<and>
   w_ready (ins_run 8 ins_reset [ins_write_word 3 5, ins_write_word 3 6]) \<and>
   w_last (ins_run 8 ins_reset [ins_write_word 3 5, ins_write_word 3 6]) (ins_write_word 3 7) \<and>
   \<not> w_last (ins_run 8 ins_reset [ins_write_word 3 5]) (ins_write_word 3 6) \<and>
   ins_w_addr
     (ins_step 8 (ins_run 8 ins_reset [ins_write_word 3 5, ins_write_word 3 6])
        (ins_write_word 3 7)) = 0 \<and>
   w_curr_buf
     (ins_step 8 (ins_run 8 ins_reset [ins_write_word 3 5, ins_write_word 3 6])
        (ins_write_word 3 7)) \<and>
   r_full
     (ins_step 8 (ins_run 8 ins_reset [ins_write_word 3 5, ins_write_word 3 6])
        (ins_write_word 3 7)) False \<and>
   ins_mem
     (ins_step 8 (ins_run 8 ins_reset [ins_write_word 3 5, ins_write_word 3 6])
        (ins_write_word 3 7)) 2 False 0 = 7"
proof -
  let ?s = "ins_run 8 ins_reset [ins_cfg_word, ins_idle]"
  let ?ws = "[ins_write_word 3 5, ins_write_word 3 6]"
  let ?t = "ins_run 8 ins_reset ?ws"
  have l: "w_last ?s ins_cfg_word"
    using ins_after_word_idle
    by (simp add: w_last_def w_accept_def w_ready_def ins_cfg_word_def del: ins_run.simps)
  have n: "\<not> ins_restart ins_cfg_word" "\<not> r_finished ins_cfg_word" "r_finished ins_finish"
    by (simp_all add: ins_cfg_word_def ins_finish_def)
  have f: "\<not> r_full (ins_step 8 ?s ins_finish) False"
    using ins_after_word_idle n(3)
    by (simp add: ins_step_fields r_full_next_def del: ins_run.simps)
  have rw: "readable ?s False" "writable ?s True"
    using ins_after_word_idle
    by (simp_all add: readable_def writable_def w_ready_def del: ins_run.simps)
  have bl: "bit_length 15 = 4" by code_simp
  have w: "ins_width 8 = 4" by (simp add: ins_width_def range_width_def bl)
  have v: "ins_w_en (ins_write_word d x)" "input_depth (ins_write_word d x) = d"
    "\<not> ins_restart (ins_write_word d x)" "\<not> r_finished (ins_write_word d x)"
    "ins_w_data (ins_write_word d x) = x" for d x
    by (simp_all add: ins_write_word_def)
  have z: "ins_w_addr ins_reset = 0" "w_ready ins_reset" "\<not> w_curr_buf ins_reset"
    "ins_run 8 ins_reset [] = ins_reset"
    by (simp_all add: ins_reset_def w_ready_def r_full_def)
  have e: "ins_reset = ins_run 8 ins_reset []" by simp
  note A = input_store_double_buffering [OF refl, of 8 "[ins_cfg_word, ins_idle]" ins_cfg_word]
  note C = input_store_double_buffering [OF refl, of 8 ?ws "ins_write_word 3 7"]
  note R = input_store_double_buffering [OF e, of ins_idle]
  have fill: "ins_w_addr ?t = 2 \<and> w_curr_buf ?t = w_curr_buf ins_reset \<and> w_ready ?t"
  proof -
    have "ins_w_addr ins_reset = 0 \<and> w_ready ins_reset \<and>
        (\<forall>j \<in> set ?ws. ins_w_en j \<and> input_depth j = 3 \<and> \<not> ins_restart j) \<and>
        length ?ws < 3 \<and> 3 \<le> (2::nat) ^ ins_width 8 \<longrightarrow>
        ins_w_addr ?t = length ?ws \<and> w_curr_buf ?t = w_curr_buf ins_reset \<and> w_ready ?t"
      by (rule R [THEN conjunct2, THEN conjunct2, THEN conjunct2, THEN conjunct2, THEN conjunct2, THEN conjunct2, THEN conjunct2, THEN conjunct2, THEN conjunct2, THEN conjunct2, THEN conjunct2, THEN conjunct2, THEN conjunct2, THEN spec, THEN spec])
    then show ?thesis by (simp add: v z w del: ins_run.simps)
  qed
  have c: "\<not> w_curr_buf ?t" "ins_w_addr ?t = 2" "w_ready ?t"
    using fill z(3) by simp_all
  have acc: "w_accept ?t (ins_write_word 3 7)"
    using c(3) by (simp add: w_accept_def v del: ins_run.simps)
  have lt: "w_last ?t (ins_write_word 3 7)"
    using c(2) acc by (simp add: w_last_def v del: ins_run.simps)
  have mid: "\<not> w_last (ins_run 8 ins_reset [ins_write_word 3 5]) (ins_write_word 3 6)"
    by (simp add: w_last_def ins_step_w_addr w_accept_def w_ready_def v z)
  have w2: "\<not> writable ?s False"
    using A [THEN conjunct1, THEN spec, of False] rw(1) by blast
  have w5: "r_full (ins_step 8 ?s ins_cfg_word) True"
    using A [THEN conjunct2, THEN conjunct2, THEN conjunct2, THEN conjunct2, THEN conjunct2, THEN conjunct1] l n(2) ins_after_word_idle(3)
    by (simp del: ins_run.simps)
  have w6: "\<not> w_curr_buf (ins_step 8 ?s ins_cfg_word)"
    using A [THEN conjunct2, THEN conjunct2, THEN conjunct2, THEN conjunct2, THEN conjunct1] l n(1) ins_after_word_idle(3)
    by (simp del: ins_run.simps)
  have w7: "ins_mem (ins_step 8 ?s ins_cfg_word) 0 False 0 = 5"
    using A [THEN conjunct2, THEN conjunct2, THEN conjunct1]
      ins_after_word_idle(1,7)
    by (simp del: ins_run.simps)
  have w14: "ins_w_addr (ins_step 8 ?t (ins_write_word 3 7)) = 0"
    using C [THEN conjunct2, THEN conjunct2, THEN conjunct2, THEN conjunct2, THEN conjunct2, THEN conjunct2, THEN conjunct2, THEN conjunct2, THEN conjunct2, THEN conjunct2, THEN conjunct1] lt by (simp del: ins_run.simps)
  have w15: "w_curr_buf (ins_step 8 ?t (ins_write_word 3 7))"
    using C [THEN conjunct2, THEN conjunct2, THEN conjunct2, THEN conjunct2, THEN conjunct1] lt c(1) v(3) by (simp del: ins_run.simps)
  have w16: "r_full (ins_step 8 ?t (ins_write_word 3 7)) False"
    using C [THEN conjunct2, THEN conjunct2, THEN conjunct2, THEN conjunct2, THEN conjunct2, THEN conjunct2, THEN conjunct2, THEN conjunct2, THEN conjunct1] lt c(1) v(4) by (simp del: ins_run.simps)
  have w17: "ins_mem (ins_step 8 ?t (ins_write_word 3 7)) 2 False 0 = 7"
    using C [THEN conjunct2, THEN conjunct2, THEN conjunct2, THEN conjunct2, THEN conjunct2, THEN conjunct2, THEN conjunct2, THEN conjunct2, THEN conjunct2, THEN conjunct2, THEN conjunct2, THEN conjunct2, THEN conjunct1] acc c(1,2) v(5) by (simp del: ins_run.simps)
  show ?thesis
    by (intro conjI) (fact rw w2 l w5 w6 w7 f c lt mid w14 w15 w16 w17)+
qed

lemma ins_run_snoc: "ins_run md s (js @ [j]) = ins_step md (ins_run md s js) j"
  by (induction js arbitrary: s) simp_all

lemma with_offset_fields:
  "ins_restart (with_offset v i) = ins_restart i"
  "input_depth (with_offset v i) = input_depth i"
  "ins_w_data (with_offset v i) = ins_w_data i"
  "ins_w_en (with_offset v i) = ins_w_en i"
  "r_next (with_offset v i) = r_next i"
  "r_finished (with_offset v i) = r_finished i"
  "ins_switch_PorD (with_offset v i) = ins_switch_PorD i"
  "ins_offset (with_offset v i) = v"
  "input_width (with_offset v i) = input_width i"
  "pad (with_offset v i) = pad i"
  "smr_datas (with_offset v i) = smr_datas i"
  "smr_mem_datas (with_offset v i) = smr_mem_datas i"
  by (simp_all add: with_offset_def)

text \<open>No signal that feeds a register other than \<open>r_data\<close> reads \<open>offset\<close> or
  \<open>r_data\<close>.\<close>

lemma frame_r_full: "r_full (s\<lparr>r_data := d\<rparr>) b = r_full s b"
  by (simp add: r_full_def)

lemma frame_w_accept: "w_accept (s\<lparr>r_data := d\<rparr>) (with_offset v i) = w_accept s i"
  by (simp add: w_accept_def w_ready_def frame_r_full with_offset_fields)

lemma frame_w_last: "w_last (s\<lparr>r_data := d\<rparr>) (with_offset v i) = w_last s i"
  by (simp add: w_last_def frame_w_accept with_offset_fields)

lemma frame_mem_next: "ins_mem_next (s\<lparr>r_data := d\<rparr>) (with_offset v i) = ins_mem_next s i"
  by (intro ext) (simp add: ins_mem_next_def frame_w_accept with_offset_fields)

lemma frame_full: "full (s\<lparr>r_data := d\<rparr>) = full s"
  by (simp add: full_def frame_r_full)

lemma frame_rising_full: "rising_full (s\<lparr>r_data := d\<rparr>) = rising_full s"
  by (simp add: rising_full_def frame_full)

lemma frame_r_advance: "r_advance (s\<lparr>r_data := d\<rparr>) (with_offset v i) = r_advance s i"
  by (simp add: r_advance_def with_offset_fields)

lemma frame_iwc:
  "iwc_en (s\<lparr>r_data := d\<rparr>) (with_offset v i) = iwc_en s i"
  "iwc_max (with_offset v i) = iwc_max i"
  "iwc_done (s\<lparr>r_data := d\<rparr>) (with_offset v i) = iwc_done s i"
  by (simp_all add: iwc_en_def iwc_max_def iwc_done_def frame_rising_full frame_r_advance
      with_offset_fields)

lemma frame_r_full_next:
  "r_full_next (s\<lparr>r_data := d\<rparr>) (with_offset v i) b = r_full_next s i b"
  by (simp add: r_full_next_def frame_w_last frame_r_full with_offset_fields)

lemma frame_r_addr_next:
  "ins_r_addr_next md (s\<lparr>r_data := d\<rparr>) (with_offset v i) = ins_r_addr_next md s i"
  by (simp add: ins_r_addr_next_def frame_r_advance frame_iwc frame_rising_full
      with_offset_fields)

lemma frame_tmp_byte: "tmp_byte (s\<lparr>r_data := d\<rparr>) (with_offset v i) = tmp_byte s i"
  by (intro ext) (simp add: tmp_byte_def tmp_word_def with_offset_fields)

lemma frame_r_data_tmp_next:
  "r_data_tmp_next (s\<lparr>r_data := d\<rparr>) (with_offset v i) = r_data_tmp_next s i"
  by (intro ext) (simp add: r_data_tmp_next_def frame_tmp_byte with_offset_fields)

lemmas ins_frame =
  frame_w_accept frame_w_last frame_mem_next frame_full frame_rising_full frame_r_advance
  frame_iwc frame_r_full_next frame_r_addr_next frame_r_data_tmp_next

lemma ins_step_frame:
  "(ins_step md (s\<lparr>r_data := d\<rparr>) (with_offset v i))\<lparr>r_data := e\<rparr> =
   (ins_step md s i)\<lparr>r_data := e\<rparr>"
  by (simp add: ins_step_def ins_frame with_offset_fields)

lemma r_data_next_depthwise:
  assumes "ins_switch_PorD i"
  shows "r_data_next s (with_offset v i) n =
     (if n < 16 then (if n = 3 then r_data_tmp s 3 + 4 * v else r_data_tmp s n) else r_data s n)"
  using assms by (simp add: r_data_next_def with_offset_fields tree_sum_def)

lemma ins_step_r_data: "r_data (ins_step md s i) = r_data_next s i"
  by (simp add: ins_step_def)

lemma ins_step_r_data_tmp_frame:
  "r_data_tmp (s\<lparr>r_data := d\<rparr>) = r_data_tmp s"
  by simp

lemma frame_step:
  assumes "s1\<lparr>r_data := r_data s2\<rparr> = s2" "\<forall>n. n \<noteq> 3 \<longrightarrow> r_data s1 n = r_data s2 n"
    "ins_switch_PorD i"
  shows "(ins_step md s1 (with_offset v1 i))\<lparr>r_data := r_data (ins_step md s2 (with_offset v2 i))\<rparr> =
           ins_step md s2 (with_offset v2 i)"
    and "\<forall>n. n \<noteq> 3 \<longrightarrow>
           r_data (ins_step md s1 (with_offset v1 i)) n = r_data (ins_step md s2 (with_offset v2 i)) n"
    and "r_data (ins_step md s1 (with_offset v1 i)) 3 - r_data (ins_step md s2 (with_offset v2 i)) 3 =
           4 * (v1 - v2)"
proof -
  let ?e = "r_data (ins_step md s2 (with_offset v2 i))"
  have t: "r_data_tmp s2 = r_data_tmp s1"
    using ins_step_r_data_tmp_frame [where s = s1 and d = "r_data s2"] assms(1) by simp
  have "(ins_step md s1 (with_offset v1 i))\<lparr>r_data := ?e\<rparr> = (ins_step md s1 i)\<lparr>r_data := ?e\<rparr>"
    using ins_step_frame [where md = md and s = s1 and d = "r_data s1" and v = v1 and i = i and e = ?e]
    by simp
  also have "\<dots> = (ins_step md (s1\<lparr>r_data := r_data s2\<rparr>) (with_offset v2 i))\<lparr>r_data := ?e\<rparr>"
    by (rule ins_step_frame [symmetric])
  also have "\<dots> = ins_step md s2 (with_offset v2 i)"
    unfolding assms(1) by simp
  finally show "(ins_step md s1 (with_offset v1 i))\<lparr>r_data := ?e\<rparr> = ins_step md s2 (with_offset v2 i)" .
  show "\<forall>n. n \<noteq> 3 \<longrightarrow>
      r_data (ins_step md s1 (with_offset v1 i)) n = r_data (ins_step md s2 (with_offset v2 i)) n"
    using assms(2,3) by (simp add: ins_step_r_data r_data_next_depthwise t)
  show "r_data (ins_step md s1 (with_offset v1 i)) 3 - r_data (ins_step md s2 (with_offset v2 i)) 3 =
      4 * (v1 - v2)"
    using assms(3) by (simp add: ins_step_r_data r_data_next_depthwise t algebra_simps)
qed

lemma frame_run:
  assumes "s1\<lparr>r_data := r_data s2\<rparr> = s2" "\<forall>n. n \<noteq> 3 \<longrightarrow> r_data s1 n = r_data s2 n"
    "\<forall>j \<in> set js. ins_switch_PorD j"
  shows "(ins_run md s1 (map (with_offset v1) js))\<lparr>r_data :=
            r_data (ins_run md s2 (map (with_offset v2) js))\<rparr> =
           ins_run md s2 (map (with_offset v2) js) \<and>
         (\<forall>n. n \<noteq> 3 \<longrightarrow> r_data (ins_run md s1 (map (with_offset v1) js)) n =
            r_data (ins_run md s2 (map (with_offset v2) js)) n)"
  using assms
proof (induction js arbitrary: s1 s2)
  case Nil
  then show ?case by simp
next
  case (Cons j js)
  have d: "ins_switch_PorD j" using Cons.prems(3) by simp
  note f = frame_step [OF Cons.prems(1,2) d, where md = md and ?v1.0 = v1 and ?v2.0 = v2]
  show ?case
    using Cons.IH [OF f(1) f(2)] Cons.prems(3) by simp
qed

text \<open>
  C9. Run the store from the same state through the same non-empty sequence of depthwise
  cycles (same stored data, same data delivered by the memories, same read requests),
  once with the offset \<open>v1\<close> and once with \<open>v2\<close>. Then every lane of \<open>r_data\<close> other
  than lane 3 is the same in both runs; lane 3 is \<open>r_data_tmp[3]\<close> of the cycle before
  plus four times the offset, in 12-bit arithmetic, so it differs between the runs by
  \<open>4 * (v1 - v2)\<close>; and every other register is the same.
\<close>

theorem offset_only_lane_3:
  assumes "\<forall>j \<in> set js. ins_switch_PorD j" "js \<noteq> []"
  shows "(\<forall>n. n \<noteq> 3 \<longrightarrow>
            r_data (ins_run md s (map (with_offset v1) js)) n =
            r_data (ins_run md s (map (with_offset v2) js)) n) \<and>
         r_data (ins_run md s (map (with_offset v1) js)) 3 -
           r_data (ins_run md s (map (with_offset v2) js)) 3 = 4 * (v1 - v2) \<and>
         r_data (ins_run md s (map (with_offset v1) js)) 3 =
           r_data_tmp (ins_run md s (map (with_offset v1) (butlast js))) 3 + 4 * v1 \<and>
         (ins_run md s (map (with_offset v1) js))\<lparr>r_data :=
            r_data (ins_run md s (map (with_offset v2) js))\<rparr> =
           ins_run md s (map (with_offset v2) js)"
proof -
  from assms(2) obtain ks k where js: "js = ks @ [k]"
    by (cases js rule: rev_cases) auto
  have dk: "ins_switch_PorD k" and dks: "\<forall>j \<in> set ks. ins_switch_PorD j"
    using assms(1) js by simp_all
  have "s\<lparr>r_data := r_data s\<rparr> = s" "\<forall>n. n \<noteq> 3 \<longrightarrow> r_data s n = r_data s n" by simp_all
  from frame_run [OF this dks, where md = md and ?v1.0 = v1 and ?v2.0 = v2]
  have a: "(ins_run md s (map (with_offset v1) ks))\<lparr>r_data :=
            r_data (ins_run md s (map (with_offset v2) ks))\<rparr> =
           ins_run md s (map (with_offset v2) ks)"
    and b: "\<forall>n. n \<noteq> 3 \<longrightarrow> r_data (ins_run md s (map (with_offset v1) ks)) n =
            r_data (ins_run md s (map (with_offset v2) ks)) n"
    by simp_all
  note f = frame_step [OF a b dk, where md = md and ?v1.0 = v1 and ?v2.0 = v2]
  have l: "r_data (ins_step md (ins_run md s (map (with_offset v1) ks)) (with_offset v1 k)) 3 =
      r_data_tmp (ins_run md s (map (with_offset v1) ks)) 3 + 4 * v1"
    using dk by (simp add: ins_step_r_data r_data_next_depthwise)
  show ?thesis
    unfolding js map_append list.map ins_run_snoc butlast_snoc
    using f l by blast
qed

lemma dw_read_bytes: "tmp_byte s (with_offset v ins_dw_read) k = (if k mod 4 = 0 then 1 else 0)"
proof -
  have "k mod 4 = 0 \<or> k mod 4 = 1 \<or> k mod 4 = 2 \<or> k mod 4 = 3" by arith
  then show ?thesis
    by (auto simp: tmp_byte_def tmp_word_def with_offset_def ins_dw_read_def drop_bit_eq_div)
qed

lemma dw_read_lane_3:
  "r_data (ins_run 8 ins_reset (map (with_offset v) [ins_dw_read, ins_dw_read])) 3 = 1 + 4 * v"
proof -
  have m: "ins_switch_PorD ins_dw_read" by (simp add: ins_dw_read_def)
  show ?thesis
    by (simp add: ins_step_def r_data_next_def r_data_tmp_next_def dw_read_bytes
        r_data_tmp_terms_def tree_sum_def with_offset_fields m)
qed

theorem offset_only_lane_3_witness:
  "r_data (ins_run 8 ins_reset (map (with_offset 1) [ins_dw_read, ins_dw_read])) 2 =
     r_data (ins_run 8 ins_reset (map (with_offset 3) [ins_dw_read, ins_dw_read])) 2 \<and>
   r_data (ins_run 8 ins_reset (map (with_offset 3) [ins_dw_read, ins_dw_read])) 3 -
     r_data (ins_run 8 ins_reset (map (with_offset 1) [ins_dw_read, ins_dw_read])) 3 = 8 \<and>
   r_data (ins_run 8 ins_reset (map (with_offset 3) [ins_dw_read, ins_dw_read])) 3 = 13 \<and>
   r_data (ins_run 8 ins_reset (map (with_offset 1) [ins_dw_read, ins_dw_read])) 3 = 5"
proof -
  have d: "\<forall>j \<in> set [ins_dw_read, ins_dw_read]. ins_switch_PorD j"
    by (simp add: ins_dw_read_def)
  have n: "[ins_dw_read, ins_dw_read] \<noteq> []" by simp
  have "(2::nat) \<noteq> 3" by simp
  with offset_only_lane_3 [OF d n, where md = 8 and s = ins_reset and ?v1.0 = 1 and ?v2.0 = 3]
  have a: "r_data (ins_run 8 ins_reset (map (with_offset 1) [ins_dw_read, ins_dw_read])) 2 =
     r_data (ins_run 8 ins_reset (map (with_offset 3) [ins_dw_read, ins_dw_read])) 2"
    by blast
  from offset_only_lane_3 [OF d n, where md = 8 and s = ins_reset and ?v1.0 = 3 and ?v2.0 = 1]
  have "r_data (ins_run 8 ins_reset (map (with_offset 3) [ins_dw_read, ins_dw_read])) 3 -
     r_data (ins_run 8 ins_reset (map (with_offset 1) [ins_dw_read, ins_dw_read])) 3 = 4 * (3 - 1)"
    by blast
  then have b: "r_data (ins_run 8 ins_reset (map (with_offset 3) [ins_dw_read, ins_dw_read])) 3 -
     r_data (ins_run 8 ins_reset (map (with_offset 1) [ins_dw_read, ins_dw_read])) 3 = 8"
    by simp
  have c: "r_data (ins_run 8 ins_reset (map (with_offset 3) [ins_dw_read, ins_dw_read])) 3 = 13"
    "r_data (ins_run 8 ins_reset (map (with_offset 1) [ins_dw_read, ins_dw_read])) 3 = 5"
    by (simp_all only: dw_read_lane_3) simp_all
  from a b c show ?thesis by blast
qed

end
